theory Spec2Isabelle
  imports Complex_Main
begin

section \<open>Data model\<close>

text \<open>
  A quantum state over \<open>k\<close> qubit lines is a dense vector of \<open>2 ^ k\<close> complex amplitudes,
  an operator a dense \<open>2 ^ k \<times> 2 ^ k\<close> complex matrix, stored row by row. Amplitudes are
  exact complex numbers: rounding of the floating-point arithmetic is not modelled.
  Basis index \<open>i\<close> stands for the bit string of \<open>i\<close> written most significant bit first,
  line 0 being the most significant bit and the ancilla, the last line, the least.
\<close>

type_synonym state = "complex list"
type_synonym operator = "complex list list"

datatype error = AssertionError | ConstructionError

definition vec :: "nat \<Rightarrow> (nat \<Rightarrow> complex) \<Rightarrow> state" where
  "vec d f = map f [0..<d]"

definition mat :: "nat \<Rightarrow> (nat \<Rightarrow> nat \<Rightarrow> complex) \<Rightarrow> operator" where
  "mat d g = map (\<lambda>i. map (g i) [0..<d]) [0..<d]"

section \<open>The linear-algebra library\<close>

text \<open>
  Modelled from the spec: the modules \<open>helper\<close>, \<open>ops\<close> and \<open>state\<close> imported by
  \<open>grover.py\<close> are not part of the sources; the definitions of this section follow the
  interface contract of the specification (Identity, Hadamard, TensorProduct, Compose,
  ApplyToLine, MaxProbability, BitsToIndex, the oracle constructor) and the array
  arithmetic the source writes with \<open>*\<close> and \<open>-\<close>.
\<close>

text \<open>Modelled from the spec: \<open>helper.bits2val\<close> (BitsToIndex), most significant bit first.\<close>

definition bits2val :: "nat list \<Rightarrow> nat" where
  "bits2val bits = foldl (\<lambda>v b. 2 * v + b) 0 bits"

text \<open>Modelled from the spec: the bit string of a basis index over \<open>n\<close> lines.\<close>

definition val2bits :: "nat \<Rightarrow> nat \<Rightarrow> nat list" where
  "val2bits v n = map (\<lambda>i. (v div 2 ^ (n - 1 - i)) mod 2) [0..<n]"

text \<open>Modelled from the spec: \<open>ops.Identity(k)\<close>, the \<open>2 ^ k \<times> 2 ^ k\<close> identity. The
  interface contract gives no value for \<open>k = 0\<close>; the one-by-one identity there is a
  convention of the model.\<close>

definition Identity :: "nat \<Rightarrow> operator" where
  "Identity k = mat (2 ^ k) (\<lambda>i j. if i = j then 1 else 0)"

text \<open>Modelled from the spec: TensorProduct (the source's \<open>*\<close> between operators and
  between states), the Kronecker product with the left factor's lines first.\<close>

definition kron :: "operator \<Rightarrow> operator \<Rightarrow> operator" where
  "kron A B =
     mat (length A * length B)
       (\<lambda>i j. A ! (i div length B) ! (j div length B) * B ! (i mod length B) ! (j mod length B))"

definition kron_state :: "state \<Rightarrow> state \<Rightarrow> state" where
  "kron_state u v = vec (length u * length v) (\<lambda>i. u ! (i div length v) * v ! (i mod length v))"

text \<open>Modelled from the spec: \<open>ops.Hadamard(k)\<close>, the Hadamard operator over \<open>k\<close> lines.
  For \<open>k = 0\<close>, where the interface contract gives no value, the model takes the empty
  Kronecker product, the one-by-one identity.\<close>

definition Hadamard1 :: operator where
  "Hadamard1 =
     [[complex_of_real (1 / sqrt 2), complex_of_real (1 / sqrt 2)],
      [complex_of_real (1 / sqrt 2), - complex_of_real (1 / sqrt 2)]]"

fun Hadamard :: "nat \<Rightarrow> operator" where
  "Hadamard 0 = [[1]]"
| "Hadamard (Suc k) = kron Hadamard1 (Hadamard k)"

text \<open>Modelled from the spec: Compose, the call \<open>A(B)\<close> of the source. On an operator it is
  the matrix product (\<open>B\<close> is applied first), on a state the matrix-vector product. The
  order of the factors is the one the interface contract states; the method behind the
  call is not part of the sources.\<close>

definition compose :: "operator \<Rightarrow> operator \<Rightarrow> operator" where
  "compose A B = mat (length A) (\<lambda>i j. \<Sum>k<length A. A ! i ! k * B ! k ! j)"

definition apply_op :: "operator \<Rightarrow> state \<Rightarrow> state" where
  "apply_op A psi = vec (length A) (\<lambda>i. \<Sum>k<length A. A ! i ! k * psi ! k)"

text \<open>The array arithmetic of \<open>op_zero * 2.0 - ops.Identity(nbits)\<close>: a scalar multiple and
  an entrywise difference.\<close>

definition scale :: "operator \<Rightarrow> complex \<Rightarrow> operator" where
  "scale A c = map (map (\<lambda>z. z * c)) A"

definition op_minus :: "operator \<Rightarrow> operator \<Rightarrow> operator" where
  "op_minus A B = map2 (map2 (\<lambda>a b. a - b)) A B"

text \<open>Modelled from the spec: \<open>state.zeros(k)\<close> and \<open>state.ones(k)\<close>, the basis states
  \<open>|0...0>\<close> and \<open>|1...1>\<close> over \<open>k\<close> lines.\<close>

definition ket :: "nat \<Rightarrow> nat \<Rightarrow> state" where
  "ket k x = vec (2 ^ k) (\<lambda>i. if i = x then 1 else 0)"

definition zeros :: "nat \<Rightarrow> state" where
  "zeros k = ket k 0"

definition ones :: "nat \<Rightarrow> state" where
  "ones k = ket k (2 ^ k - 1)"

text \<open>Modelled from the spec: ApplyToLine, the source's \<open>psi.apply(gate, index)\<close>. The
  one-line gate acts on the bit of the basis index that belongs to the line; all other
  bits are unchanged.\<close>

definition apply_gate :: "state \<Rightarrow> operator \<Rightarrow> nat \<Rightarrow> state" where
  "apply_gate psi gate index =
     (let s = length psi div 2 ^ Suc index in
      vec (length psi)
        (\<lambda>i. let b = (i div s) mod 2; base = i - b * s
             in gate ! b ! 0 * psi ! base + gate ! b ! 1 * psi ! (base + s)))"

text \<open>Modelled from the spec: MaxProbability, the source's \<open>psi.maxprob()\<close>. The basis
  strings are scanned in index order and the first one of maximal probability is kept,
  with its probability.\<close>

definition prob :: "complex \<Rightarrow> real" where
  "prob z = Re z * Re z + Im z * Im z"

fun nbits_of :: "nat \<Rightarrow> nat" where
  "nbits_of d = (if d \<le> 1 then 0 else Suc (nbits_of (d div 2)))"

definition maxprob_step :: "state \<Rightarrow> nat list \<times> real \<Rightarrow> nat \<Rightarrow> nat list \<times> real" where
  "maxprob_step psi acc i =
     (if snd acc < prob (psi ! i) then (val2bits i (nbits_of (length psi)), prob (psi ! i))
      else acc)"

definition maxprob :: "state \<Rightarrow> nat list \<times> real" where
  "maxprob psi = foldl (maxprob_step psi) ([], 0) [0..<length psi]"

text \<open>Modelled from the spec: \<open>ops.OracleUf(nbits, f)\<close> over \<open>nbits\<close> lines, the last one the
  ancilla: the permutation matrix that sends \<open>|x>|y>\<close> to \<open>|x>|y xor f(x)>\<close>. A value
  of \<open>f\<close> other than 0 or 1 is a construction error.\<close>

definition OracleUf :: "nat \<Rightarrow> (nat list \<Rightarrow> int) \<Rightarrow> error + operator" where
  "OracleUf nbits f =
     (let n = nbits - 1 in
      if list_all (\<lambda>x. f (val2bits x n) = 0 \<or> f (val2bits x n) = 1) [0..<2 ^ n]
      then Inr (mat (2 ^ nbits)
        (\<lambda>r c. if r = 2 * (c div 2) + (c mod 2 + nat (f (val2bits (c div 2) n))) mod 2
                then 1 else 0))
      else Inl ConstructionError)"

section \<open>The Grover experiment of \<open>grover.py\<close>\<close>

text \<open>
  The number of lines \<open>nbits\<close> is a natural number. Negative arguments, for which
  \<open>2**nbits\<close> is not an integer and line 54 fails, are outside the model, and at
  \<open>nbits = 0\<close> the values of the library primitives are the conventions stated above.
\<close>

text \<open>
  \<open>make_f\<close>: the predicate that is 1 on a single bit string. The random draw
  \<open>answer_true\<close>, taken by the source from \<open>[0, 2 ^ d)\<close>, is a parameter. The
  predicate reads the table \<open>answers\<close> at the value of its bits, which for a string of
  \<open>d\<close> bits is below \<open>2 ^ d\<close> (lemma \<open>bits2val_less\<close>): on the strings the
  experiment passes, the read is in range.
\<close>

definition make_f :: "nat \<Rightarrow> nat \<Rightarrow> nat list \<Rightarrow> int" where
  "make_f d answer_true =
     (let num_inputs = 2 ^ d;
          answers = (replicate num_inputs (0::int))[answer_true := 1]
      in (\<lambda>bits. answers ! bits2val bits))"

text \<open>Lines 54 to 56: the projector onto \<open>|0...0>\<close>.\<close>

definition op_zero :: "nat \<Rightarrow> operator" where
  "op_zero nbits =
     (let n = 2 ^ nbits;
          zero_projector = replicate n (replicate n (0::complex))
      in zero_projector[0 := (zero_projector ! 0)[0 := 1]])"

text \<open>Line 83.\<close>

definition reflection :: "nat \<Rightarrow> operator" where
  "reflection nbits = op_minus (scale (op_zero nbits) 2) (Identity nbits)"

text \<open>Line 84: the diffusion operator \<open>hn(reflection(hn))\<close> over the \<open>nbits\<close> search lines,
  and its padding with the identity on the ancilla.\<close>

definition diffusion :: "nat \<Rightarrow> operator" where
  "diffusion nbits =
     (let hn = Hadamard nbits in compose hn (compose (reflection nbits) hn))"

definition inversion :: "nat \<Rightarrow> operator" where
  "inversion nbits = kron (diffusion nbits) (Identity 1)"

text \<open>Line 85.\<close>

definition grover :: "nat \<Rightarrow> operator \<Rightarrow> operator" where
  "grover nbits u = compose (inversion nbits) u"

text \<open>Lines 74 to 76: the register \<open>|0...0>|1>\<close>, then one Hadamard gate per line.\<close>

definition initial_state :: "nat \<Rightarrow> state" where
  "initial_state nbits =
     (let h = Hadamard 1;
          psi = kron_state (zeros nbits) (ones 1)
      in foldl (\<lambda>psi i. apply_gate psi h i) psi [0..<nbits + 1])"

text \<open>Line 102. Python's \<open>int\<close> truncates a float towards zero.\<close>

definition py_int :: "real \<Rightarrow> int" where
  "py_int x = (if 0 \<le> x then \<lfloor>x\<rfloor> else \<lceil>x\<rceil>)"

definition iterations :: "nat \<Rightarrow> int" where
  "iterations nbits = (let n = (2::nat) ^ nbits in py_int (pi / 4 * sqrt (real n)))"

text \<open>Lines 95 to 98: the second derivation of the iteration count, quoted by the source
  from qcircuits. Python's \<open>round\<close> rounds to the nearest integer, a tie to the even one.\<close>

definition py_round :: "real \<Rightarrow> int" where
  "py_round x =
     (let fl = \<lfloor>x\<rfloor> in
      if x - of_int fl < 1/2 then fl
      else if 1/2 < x - of_int fl then fl + 1
      else if even fl then fl else fl + 1)"

definition iterations_by_angle :: "nat \<Rightarrow> int" where
  "iterations_by_angle n =
     (let angle_to_rotate = arccos (sqrt (1 / real n));
          rotation_angle = 2 * arcsin (sqrt (1 / real n))
      in py_round (angle_to_rotate / rotation_angle))"

text \<open>The iteration count in the words of the specification, for comparison with the
  source's: \<open>floor(pi/4 * sqrt N + 0.5)\<close>.\<close>

definition iterations_spec :: "nat \<Rightarrow> int" where
  "iterations_spec n = \<lfloor>pi / 4 * sqrt (real n) + 1/2\<rfloor>"

text \<open>Lines 104 and 105: the amplification loop.\<close>

fun amplify :: "operator \<Rightarrow> nat \<Rightarrow> state \<Rightarrow> state" where
  "amplify g 0 psi = psi"
| "amplify g (Suc r) psi = amplify g r (apply_op g psi)"

text \<open>Lines 113 to 117: the measurement and its check.\<close>

definition outcome_selector :: "state \<Rightarrow> (nat list \<Rightarrow> int) \<Rightarrow> error + unit" where
  "outcome_selector psi f =
     (let (maxbits, maxprobs) = maxprob psi;
          result = f (butlast maxbits)
      in if result \<noteq> 1 then Inl AssertionError else Inr ())"

definition final_state :: "nat \<Rightarrow> operator \<Rightarrow> state" where
  "final_state nbits u =
     amplify (grover nbits u) (nat (iterations nbits)) (initial_state nbits)"

definition experiment_body :: "nat \<Rightarrow> (nat list \<Rightarrow> int) \<Rightarrow> error + unit" where
  "experiment_body nbits f =
     (case OracleUf (nbits + 1) f of
        Inl e \<Rightarrow> Inl e
      | Inr u \<Rightarrow> outcome_selector (final_state nbits u) f)"

definition run_experiment :: "nat \<Rightarrow> nat \<Rightarrow> error + unit" where
  "run_experiment nbits answer_true = experiment_body nbits (make_f nbits answer_true)"

section \<open>Notions used in the statements and proofs\<close>

text \<open>A well-shaped operator: \<open>d\<close> rows of length \<open>d\<close>.\<close>

definition square :: "nat \<Rightarrow> operator \<Rightarrow> bool" where
  "square d A = (length A = d \<and> list_all (\<lambda>r. length r = d) A)"

text \<open>The conjugate transpose of an operator.\<close>

definition adjoint :: "operator \<Rightarrow> operator" where
  "adjoint A = mat (length A) (\<lambda>i j. cnj (A ! j ! i))"

text \<open>The predicate takes only the values 0 and 1 on the bit strings of length \<open>n\<close>: the
  condition under which the oracle constructor succeeds.\<close>

definition boolean_on :: "nat \<Rightarrow> (nat list \<Rightarrow> int) \<Rightarrow> bool" where
  "boolean_on n f = list_all (\<lambda>x. f (val2bits x n) = 0 \<or> f (val2bits x n) = 1) [0..<2 ^ n]"

text \<open>The permutation of basis indices behind the oracle: \<open>2x + y\<close> goes to
  \<open>2x + (y xor f x)\<close>.\<close>

definition oracle_perm :: "nat \<Rightarrow> (nat list \<Rightarrow> int) \<Rightarrow> nat \<Rightarrow> nat" where
  "oracle_perm n f c = 2 * (c div 2) + (c mod 2 + nat (f (val2bits (c div 2) n))) mod 2"

text \<open>The entries of the identity and of the Hadamard operators.\<close>

definition delta :: "nat \<Rightarrow> nat \<Rightarrow> complex" where
  "delta i j = (if i = j then 1 else 0)"

definition h1 :: "nat \<Rightarrow> nat \<Rightarrow> complex" where
  "h1 i j = complex_of_real (1 / sqrt 2) * (if i = 1 \<and> j = 1 then - 1 else 1)"

fun hent :: "nat \<Rightarrow> nat \<Rightarrow> nat \<Rightarrow> complex" where
  "hent 0 i j = 1"
| "hent (Suc k) i j = h1 (i div 2 ^ k) (j div 2 ^ k) * hent k (i mod 2 ^ k) (j mod 2 ^ k)"

text \<open>The uniform superposition over \<open>n\<close> lines and the amplitudes of the ancilla state
  \<open>H|1>\<close>.\<close>

definition uniform :: "nat \<Rightarrow> state" where
  "uniform n = vec (2 ^ n) (\<lambda>_. complex_of_real ((1 / sqrt 2) ^ n))"

definition minus_amp :: "nat \<Rightarrow> complex" where
  "minus_amp y = complex_of_real (1 / sqrt 2) * (if y = 1 then - 1 else 1)"

text \<open>Phase kick-back: on a product with the ancilla in \<open>H|1>\<close> the oracle only changes
  signs of the search factor.\<close>

definition phase_flip :: "nat \<Rightarrow> (nat list \<Rightarrow> int) \<Rightarrow> state \<Rightarrow> state" where
  "phase_flip n f phi = vec (2 ^ n) (\<lambda>x. (if f (val2bits x n) = 1 then - 1 else 1) * phi ! x)"

text \<open>One Grover iteration seen on the search lines alone.\<close>

definition search_step :: "nat \<Rightarrow> (nat list \<Rightarrow> int) \<Rightarrow> state \<Rightarrow> state" where
  "search_step n f phi = apply_op (diffusion n) (phase_flip n f phi)"

text \<open>A state of the search lines with one amplitude on the marked index and another on
  all others, and the change of the two amplitudes in one Grover iteration over a search
  space of size \<open>N\<close>: the sign of the marked amplitude is flipped, then all amplitudes
  are inverted about their mean \<open>u\<close>.\<close>

definition two_level :: "nat \<Rightarrow> nat \<Rightarrow> real \<Rightarrow> real \<Rightarrow> state" where
  "two_level n m a b = vec (2 ^ n) (\<lambda>x. complex_of_real (if x = m then a else b))"

definition amp_step :: "real \<Rightarrow> real \<times> real \<Rightarrow> real \<times> real" where
  "amp_step N ab = (let u = ((N - 1) * snd ab - fst ab) / N in (2 * u + fst ab, 2 * u - snd ab))"

text \<open>The oracle built for \<open>make_f n m\<close> and the two amplitudes after the scheduled number
  of iterations.\<close>

definition marked_oracle :: "nat \<Rightarrow> nat \<Rightarrow> operator" where
  "marked_oracle n m = mat (2 ^ Suc n) (\<lambda>r c. if r = oracle_perm n (make_f n m) c then 1 else 0)"

definition final_amps :: "nat \<Rightarrow> real \<times> real" where
  "final_amps n =
     (amp_step (2 ^ n) ^^ nat (iterations n)) ((1 / sqrt 2) ^ n, (1 / sqrt 2) ^ n)"

text \<open>The pair \<open>maxbits, maxprobs\<close> of line 113 in a run with the predicate \<open>f\<close>.\<close>

definition measurement :: "nat \<Rightarrow> (nat list \<Rightarrow> int) \<Rightarrow> error + nat list \<times> real" where
  "measurement nbits f =
     (case OracleUf (nbits + 1) f of
        Inl e \<Rightarrow> Inl e
      | Inr u \<Rightarrow> Inr (maxprob (final_state nbits u)))"

section \<open>Bounds on \<open>pi\<close> and the sine\<close>

lemma sum5: "(\<Sum>m<(5::nat). f m) = f 0 + f 1 + f 2 + f 3 + (f 4 :: real)"
  by (simp add: eval_nat_numeral)

lemma sin_taylor5: "\<bar>sin x - (x - x^3/6)\<bar> \<le> \<bar>x\<bar>^5/120" for x :: real
proof -
  have "\<bar>sin x - (\<Sum>m<5. sin_coeff m * x ^ m)\<bar> \<le> inverse (fact 5) * \<bar>x\<bar> ^ 5"
    by (rule Maclaurin_sin_bound)
  moreover have "(\<Sum>m<5. sin_coeff m * x ^ m) = x - x^3/6"
    by (simp add: sum5 sin_coeff_def fact_numeral)
  moreover have "inverse (fact 5) * \<bar>x\<bar> ^ 5 = \<bar>x\<bar>^5/120"
    by (simp add: fact_numeral)
  ultimately show ?thesis by simp
qed

lemma sin_lower5: "0 \<le> (x::real) \<Longrightarrow> x - x^3/6 - x^5/120 \<le> sin x"
  using sin_taylor5 [of x] by (simp only: abs_of_nonneg)

lemma sin_upper5: "0 \<le> (x::real) \<Longrightarrow> sin x \<le> x - x^3/6 + x^5/120"
  using sin_taylor5 [of x] by (simp only: abs_of_nonneg)

lemma pi_lower: "31/10 < pi"
proof (rule ccontr)
  assume "\<not> 31/10 < pi"
  then have le: "pi/6 \<le> 31/60" by simp
  have mono: "sin (pi/6) \<le> sin (31/60)"
    using le pi_ge_two by (intro sin_monotone_2pi_le) auto
  have "sin (31/60 :: real) \<le> 31/60 - (31/60)^3/6 + (31/60)^5/120"
    by (rule sin_upper5) simp
  also have "\<dots> < 1/2" by (simp add: power3_eq_cube power_numeral_reduce)
  finally show False using mono by (simp add: sin_30)
qed

lemma pi_upper: "pi < 318/100"
proof (rule ccontr)
  assume "\<not> pi < 318/100"
  then have le: "53/100 \<le> pi/6" by simp
  have "pi / 6 \<le> pi / 2" by simp
  then have mono: "sin (53/100) \<le> sin (pi/6)"
    using le by (intro sin_monotone_2pi_le) auto
  have "(53/100 :: real) - (53/100)^3/6 - (53/100)^5/120 \<le> sin (53/100)"
    by (rule sin_lower5) simp
  moreover have "1/2 < (53/100 :: real) - (53/100)^3/6 - (53/100)^5/120"
    by (simp add: power3_eq_cube power_numeral_reduce)
  ultimately show False using mono by (simp add: sin_30)
qed

section \<open>The iteration count\<close>

lemma py_int_nonneg: "0 \<le> x \<Longrightarrow> py_int x = \<lfloor>x\<rfloor>"
  by (simp add: py_int_def)

lemma iterations_floor: "iterations nbits = \<lfloor>pi / 4 * sqrt (2 ^ nbits)\<rfloor>"
  by (simp add: iterations_def py_int_def)

lemma py_round_near:
  assumes "real_of_int k - 1/2 < x" "x < real_of_int k + 1/2"
  shows "py_round x = k"
proof -
  have "\<lfloor>x\<rfloor> = k \<or> \<lfloor>x\<rfloor> = k - 1" using assms by linarith
  then show ?thesis
  proof
    assume "\<lfloor>x\<rfloor> = k"
    moreover have "x - of_int k < 1/2" using assms by linarith
    ultimately show ?thesis by (simp add: py_round_def)
  next
    assume f: "\<lfloor>x\<rfloor> = k - 1"
    then have "x < of_int k" by linarith
    have "1/2 < x - of_int (k - 1)" using assms by simp
    then show ?thesis using f by (simp add: py_round_def Let_def)
  qed
qed

lemma floor_pi_sqrt:
  fixes N :: real and k :: nat
  assumes N: "0 \<le> N"
    and lo: "(4 * real k)\<^sup>2 \<le> (31/10)\<^sup>2 * N"
    and hi: "(318/100)\<^sup>2 * N < (4 * (real k + 1))\<^sup>2"
  shows "\<lfloor>pi / 4 * sqrt N\<rfloor> = int k"
proof -
  have "sqrt ((4 * real k)\<^sup>2) \<le> sqrt ((31/10)\<^sup>2 * N)" using lo by (rule real_sqrt_le_mono)
  then have a: "4 * real k \<le> 31/10 * sqrt N" by (simp add: real_sqrt_mult)
  have "31/10 * sqrt N \<le> pi * sqrt N"
    using pi_lower N by (intro mult_right_mono) auto
  with a have lo': "real k \<le> pi / 4 * sqrt N" by simp
  have "sqrt ((318/100)\<^sup>2 * N) < sqrt ((4 * (real k + 1))\<^sup>2)" using hi by (rule real_sqrt_less_mono)
  then have b: "318/100 * sqrt N < 4 * (real k + 1)" by (simp add: real_sqrt_mult)
  have "pi * sqrt N \<le> 318/100 * sqrt N"
    using pi_upper N by (intro mult_right_mono) auto
  with b have hi': "pi / 4 * sqrt N < real k + 1" by simp
  from lo' hi' show ?thesis by linarith
qed

lemma iterations_at_2: "iterations 2 = 1"
proof -
  have "\<lfloor>pi / 4 * sqrt (2 ^ 2)\<rfloor> = int 1"
    by (rule floor_pi_sqrt) (simp_all add: power2_eq_square)
  then show ?thesis by (simp add: iterations_floor)
qed

lemma iterations_at_3: "iterations 3 = 2"
proof -
  have "\<lfloor>pi / 4 * sqrt (2 ^ 3)\<rfloor> = int 2"
    by (rule floor_pi_sqrt) (simp_all add: power2_eq_square)
  then show ?thesis by (simp add: iterations_floor)
qed

lemma iterations_at_4: "iterations 4 = 3"
proof -
  have "\<lfloor>pi / 4 * sqrt (2 ^ 4)\<rfloor> = int 3"
    by (rule floor_pi_sqrt) (simp_all add: power2_eq_square)
  then show ?thesis by (simp add: iterations_floor)
qed

lemma iterations_at_5: "iterations 5 = 4"
proof -
  have "\<lfloor>pi / 4 * sqrt (2 ^ 5)\<rfloor> = int 4"
    by (rule floor_pi_sqrt) (simp_all add: power2_eq_square)
  then show ?thesis by (simp add: iterations_floor)
qed

lemma iterations_at_6: "iterations 6 = 6"
proof -
  have "\<lfloor>pi / 4 * sqrt (2 ^ 6)\<rfloor> = int 6"
    by (rule floor_pi_sqrt) (simp_all add: power2_eq_square)
  then show ?thesis by (simp add: iterations_floor)
qed

lemma iterations_at_7: "iterations 7 = 8"
proof -
  have "\<lfloor>pi / 4 * sqrt (2 ^ 7)\<rfloor> = int 8"
    by (rule floor_pi_sqrt) (simp_all add: power2_eq_square)
  then show ?thesis by (simp add: iterations_floor)
qed

lemma angle_ratio_round:
  fixes n :: nat and k :: nat
  assumes n: "1 < n" and k: "0 < k"
    and up: "(318/100 / (4 * (real k + 1)))\<^sup>2 < 1 / real n"
    and q: "q = 31/10 / (4 * real k)"
    and pos: "0 < q - q^3/6 - q^5/120"
    and lo: "1 / real n < (q - q^3/6 - q^5/120)\<^sup>2"
  shows "iterations_by_angle n = int k"
proof -
  define s where "s = sqrt (1 / real n)"
  define t where "t = arcsin s"
  have s01: "0 < s" "s < 1" using n by (simp_all add: s_def)
  have t_bounds: "0 < t" "t < pi / 2"
    using s01 arcsin_lt_bounded [of s] arcsin_less_mono [of 0 s] by (simp_all add: t_def)
  have sin_t: "sin t = s" using s01 by (simp add: t_def)
  have acos: "arccos s = pi / 2 - t" using s01 by (simp add: arccos_arcsin_eq t_def)
  \<comment> \<open>upper bound of the angle\<close>
  have qpos: "0 < q" using k q by simp
  have q_le: "q \<le> pi / (4 * real k)"
    using pi_lower k unfolding q by (intro divide_right_mono) auto
  have "pi / (4 * real k) \<le> pi / 2" using k
    by (simp add: field_simps)
  then have "sin q \<le> sin (pi / (4 * real k))"
    using q_le qpos by (intro sin_monotone_2pi_le) auto
  moreover have "q - q^3/6 - q^5/120 \<le> sin q" using qpos by (intro sin_lower5) simp
  moreover have "s < q - q^3/6 - q^5/120"
    unfolding s_def using lo pos by (intro real_less_lsqrt) auto
  ultimately have "sin t < sin (pi / (4 * real k))" using sin_t by linarith
  moreover have "0 < pi / (4 * real k)" using k by simp
  ultimately have t_hi: "t < pi / (4 * real k)"
    using t_bounds \<open>pi / (4 * real k) \<le> pi / 2\<close>
    by (subst (asm) sin_mono_less_eq) auto
  \<comment> \<open>lower bound of the angle\<close>
  define p where "p = pi / (4 * (real k + 1))"
  have ppos: "0 < p" by (simp add: p_def)
  have "p < 318/100 / (4 * (real k + 1))"
    unfolding p_def using pi_upper by (intro divide_strict_right_mono) auto
  moreover have "318/100 / (4 * (real k + 1)) < s"
    unfolding s_def using up by (intro real_less_rsqrt) auto
  moreover have "sin p \<le> p" using ppos by (intro sin_x_le_x) simp
  ultimately have "sin p < sin t" using sin_t by linarith
  moreover have "p \<le> pi / 2" unfolding p_def by (simp add: field_simps)
  ultimately have t_lo: "p < t"
    using t_bounds ppos by (subst (asm) sin_mono_less_eq) auto
  \<comment> \<open>the ratio\<close>
  have kt: "real k * t < pi / 4" using t_hi k by (simp add: field_simps)
  have kt': "pi / 4 < (real k + 1) * t" using t_lo by (simp add: p_def field_simps)
  have "real k - 1/2 < (pi / 2 - t) / (2 * t)"
    using t_bounds kt by (simp add: field_simps)
  moreover have "(pi / 2 - t) / (2 * t) < real k + 1/2"
    using t_bounds kt' by (simp add: field_simps)
  ultimately have "py_round ((pi / 2 - t) / (2 * t)) = int k"
    by (intro py_round_near) simp_all
  then show ?thesis
    by (simp add: iterations_by_angle_def Let_def acos s_def [symmetric] t_def [symmetric])
qed

lemma angle_at_4: "iterations_by_angle 4 = 1"
proof -
  have "iterations_by_angle 4 = int 1"
    by (rule angle_ratio_round [where q = "31 / 40"])
       (simp_all add: power2_eq_square power3_eq_cube power_numeral_reduce)
  then show ?thesis by simp
qed

lemma angle_at_8: "iterations_by_angle 8 = 2"
proof -
  have "iterations_by_angle 8 = int 2"
    by (rule angle_ratio_round [where q = "31 / 80"])
       (simp_all add: power2_eq_square power3_eq_cube power_numeral_reduce)
  then show ?thesis by simp
qed

lemma angle_at_16: "iterations_by_angle 16 = 3"
proof -
  have "iterations_by_angle 16 = int 3"
    by (rule angle_ratio_round [where q = "31 / 120"])
       (simp_all add: power2_eq_square power3_eq_cube power_numeral_reduce)
  then show ?thesis by simp
qed

lemma angle_at_32: "iterations_by_angle 32 = 4"
proof -
  have "iterations_by_angle 32 = int 4"
    by (rule angle_ratio_round [where q = "31 / 160"])
       (simp_all add: power2_eq_square power3_eq_cube power_numeral_reduce)
  then show ?thesis by simp
qed

lemma angle_at_64: "iterations_by_angle 64 = 6"
proof -
  have "iterations_by_angle 64 = int 6"
    by (rule angle_ratio_round [where q = "31 / 240"])
       (simp_all add: power2_eq_square power3_eq_cube power_numeral_reduce)
  then show ?thesis by simp
qed

lemma angle_at_128: "iterations_by_angle 128 = 8"
proof -
  have "iterations_by_angle 128 = int 8"
    by (rule angle_ratio_round [where q = "31 / 320"])
       (simp_all add: power2_eq_square power3_eq_cube power_numeral_reduce)
  then show ?thesis by simp
qed

lemma floor_is_iterations: "\<lfloor>pi / 4 * sqrt (real (2 ^ nbits))\<rfloor> = iterations nbits"
  by (simp add: iterations_floor)

lemma floor_quarter_pi: "\<lfloor>pi / 4\<rfloor> = 0"
proof -
  have "0 \<le> pi / 4" "pi / 4 < 1" using pi_less_4 by simp_all
  then show ?thesis by linarith
qed

text \<open>
  C8. With a search space of one element (\<open>nbits = 0\<close>, \<open>N = 1\<close>) the iteration count
  is 0: it is the truncation of \<open>pi / 4\<close>, and the expression of line 102 has no division
  by a variable and no failing operation.
\<close>

theorem iterations_zero_lines: "iterations 0 = 0"
proof -
  have "0 \<le> pi / 4 * sqrt (real ((2::nat) ^ 0))" by simp
  then have "py_int (pi / 4 * sqrt (real ((2::nat) ^ 0))) = \<lfloor>pi / 4 * sqrt (real ((2::nat) ^ 0))\<rfloor>"
    by (rule py_int_nonneg)
  also have "\<dots> = \<lfloor>pi / 4\<rfloor>" by simp
  also have "\<dots> = 0" by (rule floor_quarter_pi)
  finally show ?thesis by (simp only: iterations_def Let_def)
qed

lemma iterations_spec_at_4: "iterations_spec 4 = 2"
proof -
  have "2 \<le> pi / 2 + 1/2" "pi / 2 + 1/2 < 3" using pi_lower pi_upper by simp_all
  then have "\<lfloor>pi / 2 + 1/2\<rfloor> = 2" by linarith
  then show ?thesis by (simp add: iterations_spec_def)
qed

text \<open>
  C3, as stated, fails: for \<open>N = 4\<close> (\<open>nbits = 2\<close>) the source's count is 1, while the
  round-to-nearest value \<open>floor(pi/4 * sqrt 4 + 0.5)\<close> is 2.
\<close>

theorem iterations_not_rounded: "iterations 2 \<noteq> iterations_spec (2 ^ 2)"
  using iterations_at_2 iterations_spec_at_4 by simp

text \<open>
  C3, amended. For every search-space size \<open>N = 2 ^ nbits\<close> the iteration count of line
  102 is the truncation \<open>floor(pi/4 * sqrt N)\<close>: a non-negative integer \<open>r\<close> with
  \<open>r \<le> pi/4 * sqrt N < r + 1\<close>.
\<close>

theorem iterations_truncates:
  "iterations nbits = \<lfloor>pi / 4 * sqrt (real (2 ^ nbits))\<rfloor> \<and> 0 \<le> iterations nbits
   \<and> real_of_int (iterations nbits) \<le> pi / 4 * sqrt (real (2 ^ nbits))
   \<and> pi / 4 * sqrt (real (2 ^ nbits)) < real_of_int (iterations nbits) + 1"
proof -
  let ?x = "pi / 4 * sqrt (real (2 ^ nbits))"
  have nonneg: "0 \<le> ?x" by simp
  have eq: "iterations nbits = \<lfloor>?x\<rfloor>"
    unfolding iterations_def py_int_def Let_def using nonneg by (simp only: if_True)
  have "0 \<le> \<lfloor>?x\<rfloor>" using nonneg by (simp only: zero_le_floor)
  moreover have "real_of_int \<lfloor>?x\<rfloor> \<le> ?x" by (rule of_int_floor_le)
  moreover have "?x < real_of_int \<lfloor>?x\<rfloor> + 1" by linarith
  ultimately show ?thesis unfolding eq by blast
qed

text \<open>
  C7, as stated, fails: for \<open>N = 4\<close> the round-to-nearest of \<open>pi/4 * sqrt N\<close> is 2, while
  the ratio of the angles \<open>arccos(1/sqrt N) / (2 * arcsin(1/sqrt N))\<close> rounds to 1.
\<close>

theorem rounded_differs_from_angle: "iterations_spec 4 \<noteq> iterations_by_angle 4"
  using iterations_spec_at_4 angle_at_4 by simp

text \<open>
  C7, amended. For every \<open>N\<close> in \<open>{4, 8, 16, 32, 64, 128}\<close> the truncation of
  \<open>pi/4 * sqrt N\<close>, which is what the program computes, and the rounded ratio of the
  angles are the same integer: 1, 2, 3, 4, 6 and 8.
\<close>

theorem derivations_agree:
  "map iterations [2, 3, 4, 5, 6, 7] = [1, 2, 3, 4, 6, 8]
   \<and> map iterations_by_angle [4, 8, 16, 32, 64, 128] = [1, 2, 3, 4, 6, 8]
   \<and> map (\<lambda>nbits. \<lfloor>pi / 4 * sqrt (real (2 ^ nbits))\<rfloor>) [2, 3, 4, 5, 6, 7]
       = map iterations [2, 3, 4, 5, 6, 7]"
proof (intro conjI)
  show "map iterations [2, 3, 4, 5, 6, 7] = [1, 2, 3, 4, 6, 8]"
    by (simp add: iterations_at_2 iterations_at_3 iterations_at_4 iterations_at_5
        iterations_at_6 iterations_at_7)
  show "map iterations_by_angle [4, 8, 16, 32, 64, 128] = [1, 2, 3, 4, 6, 8]"
    by (simp add: angle_at_4 angle_at_8 angle_at_16 angle_at_32 angle_at_64 angle_at_128)
  show "map (\<lambda>nbits. \<lfloor>pi / 4 * sqrt (real (2 ^ nbits))\<rfloor>) [2, 3, 4, 5, 6, 7]
       = map iterations [2, 3, 4, 5, 6, 7]"
    by (simp only: floor_is_iterations)
qed

section \<open>Vectors, matrices and the Kronecker product\<close>

lemma length_vec [simp]: "length (vec d f) = d"
  by (simp add: vec_def)

lemma nth_vec [simp]: "i < d \<Longrightarrow> vec d f ! i = f i"
  by (simp add: vec_def)

lemma length_mat [simp]: "length (mat d g) = d"
  by (simp add: mat_def)

lemma length_mat_row [simp]: "i < d \<Longrightarrow> length (mat d g ! i) = d"
  by (simp add: mat_def)

lemma nth_mat [simp]: "i < d \<Longrightarrow> j < d \<Longrightarrow> mat d g ! i ! j = g i j"
  by (simp add: mat_def)

lemma vec_cong: "(\<And>i. i < d \<Longrightarrow> f i = g i) \<Longrightarrow> vec d f = vec d g"
  by (simp add: vec_def)

lemma mat_cong: "(\<And>i j. i < d \<Longrightarrow> j < d \<Longrightarrow> f i j = g i j) \<Longrightarrow> mat d f = mat d g"
  by (simp add: mat_def)

lemma vec_eta: "length psi = d \<Longrightarrow> vec d (\<lambda>i. psi ! i) = psi"
  by (auto simp: vec_def intro: nth_equalityI)

lemma square_mat [simp]: "square d (mat d g)"
  by (simp add: square_def mat_def list_all_iff)

lemma mat_eta: "square d A \<Longrightarrow> mat d (\<lambda>i j. A ! i ! j) = A"
  by (auto simp: square_def list_all_iff intro!: nth_equalityI)

lemma square_length: "square d A \<Longrightarrow> length A = d"
  by (simp add: square_def)

lemma compose_mat:
  "compose (mat d f) (mat d g) = mat d (\<lambda>i j. \<Sum>k<d. f i k * g k j)"
  unfolding compose_def length_mat by (rule mat_cong) simp

lemma apply_mat_vec:
  "apply_op (mat d f) (vec d v) = vec d (\<lambda>i. \<Sum>k<d. f i k * v k)"
  unfolding apply_op_def length_mat by (rule vec_cong) simp

lemma div_mod_less:
  fixes i a b :: nat
  assumes "i < a * b"
  shows "i div b < a" and "i mod b < b"
proof -
  have b: "0 < b" using assms by (cases b) auto
  then show "i mod b < b" by simp
  show "i div b < a" using assms by (simp add: less_mult_imp_div_less)
qed

lemma kron_mat:
  "kron (mat a f) (mat b g) =
     mat (a * b) (\<lambda>i j. f (i div b) (j div b) * g (i mod b) (j mod b))"
  unfolding kron_def length_mat by (rule mat_cong) (simp add: div_mod_less)

lemma kron_state_vec:
  "kron_state (vec a u) (vec b v) = vec (a * b) (\<lambda>i. u (i div b) * v (i mod b))"
  unfolding kron_state_def length_vec by (rule vec_cong) (simp add: div_mod_less)

lemma sum_div_mod:
  fixes F :: "nat \<Rightarrow> nat \<Rightarrow> complex"
  shows "(\<Sum>k<a * b. F (k div b) (k mod b)) = (\<Sum>x<a. \<Sum>y<b. F x y)"
proof (induction a)
  case 0
  show ?case by simp
next
  case (Suc a)
  have split: "{..<Suc a * b} = {..<a * b} \<union> {a * b..<a * b + b}" by auto
  have "(\<Sum>k<Suc a * b. F (k div b) (k mod b)) =
        (\<Sum>k<a * b. F (k div b) (k mod b)) + (\<Sum>k = a * b..<a * b + b. F (k div b) (k mod b))"
    unfolding split by (rule sum.union_disjoint) auto
  also have "(\<Sum>k = a * b..<a * b + b. F (k div b) (k mod b)) =
        (\<Sum>y = 0..<b. F ((y + a * b) div b) ((y + a * b) mod b))"
    using sum.shift_bounds_nat_ivl [of "\<lambda>k. F (k div b) (k mod b)" 0 "a * b" b]
    by (simp add: add.commute)
  also have "\<dots> = (\<Sum>y<b. F a y)"
    by (rule sum.cong) (auto simp: atLeast0LessThan)
  finally show ?case by (simp add: Suc.IH)
qed

lemma sum_kron_product:
  fixes p q :: "nat \<Rightarrow> complex"
  shows "(\<Sum>k<a * b. p (k div b) * q (k mod b)) = (\<Sum>x<a. p x) * (\<Sum>y<b. q y)"
proof -
  have "(\<Sum>k<a * b. p (k div b) * q (k mod b)) = (\<Sum>x<a. \<Sum>y<b. p x * q y)"
    by (rule sum_div_mod [of "\<lambda>x y. p x * q y"])
  also have "\<dots> = (\<Sum>x<a. p x) * (\<Sum>y<b. q y)"
    by (simp add: sum_product)
  finally show ?thesis .
qed

lemma compose_kron:
  "compose (kron (mat a f) (mat b g)) (kron (mat a f') (mat b g')) =
   kron (compose (mat a f) (mat a f')) (compose (mat b g) (mat b g'))"
proof -
  have "(\<Sum>k<a * b. f (i div b) (k div b) * g (i mod b) (k mod b) *
                      (f' (k div b) (j div b) * g' (k mod b) (j mod b))) =
        (\<Sum>x<a. f (i div b) x * f' x (j div b)) * (\<Sum>y<b. g (i mod b) y * g' y (j mod b))"
    for i j
  proof -
    have "(\<Sum>k<a * b. f (i div b) (k div b) * g (i mod b) (k mod b) *
                      (f' (k div b) (j div b) * g' (k mod b) (j mod b))) =
      (\<Sum>k<a * b. (f (i div b) (k div b) * f' (k div b) (j div b)) *
                     (g (i mod b) (k mod b) * g' (k mod b) (j mod b)))"
      by (rule sum.cong) (simp_all add: mult_ac)
    also have "\<dots> = (\<Sum>x<a. f (i div b) x * f' x (j div b)) *
                      (\<Sum>y<b. g (i mod b) y * g' y (j mod b))"
      by (rule sum_kron_product
          [of "\<lambda>x. f (i div b) x * f' x (j div b)" b "\<lambda>y. g (i mod b) y * g' y (j mod b)" a])
    finally show ?thesis .
  qed
  then show ?thesis
    by (simp only: kron_mat compose_mat)
qed

lemma apply_kron:
  "apply_op (kron (mat a f) (mat b g)) (kron_state (vec a u) (vec b v)) =
   kron_state (apply_op (mat a f) (vec a u)) (apply_op (mat b g) (vec b v))"
proof -
  have "(\<Sum>k<a * b. f (i div b) (k div b) * g (i mod b) (k mod b) * (u (k div b) * v (k mod b))) =
        (\<Sum>x<a. f (i div b) x * u x) * (\<Sum>y<b. g (i mod b) y * v y)"
    for i
  proof -
    have "(\<Sum>k<a * b. f (i div b) (k div b) * g (i mod b) (k mod b) * (u (k div b) * v (k mod b))) =
      (\<Sum>k<a * b. (f (i div b) (k div b) * u (k div b)) * (g (i mod b) (k mod b) * v (k mod b)))"
      by (rule sum.cong) (simp_all add: mult_ac)
    also have "\<dots> = (\<Sum>x<a. f (i div b) x * u x) * (\<Sum>y<b. g (i mod b) y * v y)"
      by (rule sum_kron_product
          [of "\<lambda>x. f (i div b) x * u x" b "\<lambda>y. g (i mod b) y * v y" a])
    finally show ?thesis .
  qed
  then show ?thesis
    by (simp only: kron_mat kron_state_vec apply_mat_vec)
qed

lemma apply_compose:
  "apply_op (compose (mat d f) (mat d g)) (vec d v) =
   apply_op (mat d f) (apply_op (mat d g) (vec d v))"
proof -
  have "(\<Sum>k<d. (\<Sum>l<d. f i l * g l k) * v k) = (\<Sum>l<d. f i l * (\<Sum>k<d. g l k * v k))" for i
  proof -
    have "(\<Sum>k<d. (\<Sum>l<d. f i l * g l k) * v k) = (\<Sum>k<d. \<Sum>l<d. f i l * (g l k * v k))"
      by (simp add: sum_distrib_right mult.assoc)
    also have "\<dots> = (\<Sum>l<d. \<Sum>k<d. f i l * (g l k * v k))" by (rule sum.swap)
    also have "\<dots> = (\<Sum>l<d. f i l * (\<Sum>k<d. g l k * v k))"
      by (simp add: sum_distrib_left)
    finally show ?thesis .
  qed
  then show ?thesis
    by (simp add: compose_mat apply_mat_vec)
qed

section \<open>The Hadamard operator\<close>

lemma mat_one: "mat (Suc 0) g = [[g 0 0]]"
  by (simp add: mat_def)

lemma mat_two: "mat 2 g = [[g 0 0, g 0 1], [g 1 0, g 1 1]]"
  by (simp add: mat_def upt_rec numeral_2_eq_2)

lemma Hadamard1_mat: "Hadamard1 = mat 2 h1"
  by (simp add: mat_two Hadamard1_def h1_def)

lemma hent_Suc_mat:
  "kron (mat 2 h1) (mat (2 ^ k) (hent k)) = mat (2 ^ Suc k) (hent (Suc k))"
  unfolding kron_mat power_Suc by (rule mat_cong) simp

lemma Hadamard_mat: "Hadamard k = mat (2 ^ k) (hent k)"
proof (induction k)
  case 0
  show ?case by (simp add: mat_one)
next
  case (Suc k)
  show ?case
    by (simp only: Hadamard.simps Suc.IH Hadamard1_mat hent_Suc_mat)
qed

lemma Identity_mat: "Identity k = mat (2 ^ k) delta"
  unfolding Identity_def delta_def ..

lemma hent_col0: "hent k i 0 = complex_of_real ((1 / sqrt 2) ^ k)"
proof (induction k arbitrary: i)
  case 0
  show ?case by simp
next
  case (Suc k)
  show ?case by (simp add: Suc.IH h1_def)
qed

lemma hent_row0: "hent k 0 j = complex_of_real ((1 / sqrt 2) ^ k)"
proof (induction k arbitrary: j)
  case 0
  show ?case by simp
next
  case (Suc k)
  show ?case by (simp add: Suc.IH h1_def)
qed

lemma sum2: "(\<Sum>k<(2::nat). f k) = f 0 + (f 1 :: complex)"
  by (simp add: numeral_2_eq_2)

lemma h1_involution: "compose (mat 2 h1) (mat 2 h1) = mat 2 delta"
proof -
  have half: "complex_of_real (1 / sqrt 2) * complex_of_real (1 / sqrt 2) = 1 / 2"
    by (simp add: field_simps flip: of_real_mult)
  have "(\<Sum>k<2. h1 i k * h1 k j) = delta i j" if "i < 2" "j < 2" for i j
  proof -
    have ij: "i = 0 \<or> i = 1" "j = 0 \<or> j = 1" using that by auto
    have "(1 / sqrt 2) * (1 / sqrt 2) = (1/2 :: real)" by (simp add: field_simps)
    then have h: "complex_of_real (1 / sqrt 2) * complex_of_real (1 / sqrt 2) = 1 / 2"
      by (metis of_real_mult of_real_divide of_real_1 of_real_numeral)
    have h': "complex_of_real (sqrt 2) * complex_of_real (sqrt 2) = 2"
      by (simp flip: of_real_mult)
    have "h1 i 0 * h1 0 j + h1 i 1 * h1 1 j = delta i j"
      using ij by (auto simp: h1_def delta_def h h' mult.assoc)
    then show ?thesis by (simp add: sum2)
  qed
  then show ?thesis unfolding compose_mat by (intro mat_cong)
qed

lemma kron_delta: "kron (mat a delta) (mat b delta) = mat (a * b) delta"
proof -
  have "delta (i div b) (j div b) * delta (i mod b) (j mod b) = delta i j" for i j
  proof -
    have "(i div b = j div b \<and> i mod b = j mod b) = (i = j)"
      by (metis div_mult_mod_eq)
    then show ?thesis by (auto simp: delta_def)
  qed
  then show ?thesis by (simp only: kron_mat)
qed

lemma Hadamard_involution: "compose (Hadamard k) (Hadamard k) = Identity k"
proof (induction k)
  case 0
  show ?case by (simp add: compose_def mat_one Identity_def)
next
  case (Suc k)
  have "compose (Hadamard (Suc k)) (Hadamard (Suc k)) =
        kron (compose (mat 2 h1) (mat 2 h1)) (compose (Hadamard k) (Hadamard k))"
    by (simp only: Hadamard.simps Hadamard1_mat Hadamard_mat [of k] compose_kron)
  also have "\<dots> = kron (mat 2 delta) (mat (2 ^ k) delta)"
    by (simp only: h1_involution Suc.IH Identity_mat [of k])
  also have "\<dots> = Identity (Suc k)"
    by (simp add: kron_delta Identity_mat)
  finally show ?case .
qed

lemma hent_involution:
  assumes "i < 2 ^ k" "j < 2 ^ k"
  shows "(\<Sum>l<2 ^ k. hent k i l * hent k l j) = delta i j"
proof -
  have "compose (mat (2 ^ k) (hent k)) (mat (2 ^ k) (hent k)) ! i ! j = mat (2 ^ k) delta ! i ! j"
    using Hadamard_involution [of k] by (simp only: Hadamard_mat Identity_mat)
  then show ?thesis using assms by (simp add: compose_mat)
qed

section \<open>The diffusion operator\<close>

lemma op_zero_mat: "op_zero k = mat (2 ^ k) (\<lambda>i j. if i = 0 \<and> j = 0 then 1 else 0)"
proof -
  have pos: "0 < (2::nat) ^ k" by simp
  show ?thesis
    unfolding op_zero_def Let_def
    by (rule nth_equalityI, simp, rule nth_equalityI)
       (auto simp: nth_list_update pos split: if_splits)
qed

lemma scale_mat: "scale (mat d f) c = mat d (\<lambda>i j. f i j * c)"
  by (simp add: scale_def mat_def)

lemma op_minus_mat: "op_minus (mat d f) (mat d g) = mat d (\<lambda>i j. f i j - g i j)"
  by (rule nth_equalityI, simp add: op_minus_def, rule nth_equalityI)
     (simp_all add: op_minus_def)

lemma reflection_mat:
  "reflection k = mat (2 ^ k) (\<lambda>i j. (if i = 0 \<and> j = 0 then 2 else 0) - delta i j)"
  unfolding reflection_def op_zero_mat scale_mat Identity_mat op_minus_mat
  by (rule mat_cong) simp

lemma half_power:
  "complex_of_real ((1 / sqrt 2) ^ k) * complex_of_real ((1 / sqrt 2) ^ k) = 1 / 2 ^ k"
proof -
  have "(1 / sqrt 2) * (1 / sqrt 2) = (1 / 2 :: real)" by (simp add: field_simps)
  then have "((1 / sqrt 2) * (1 / sqrt 2)) ^ k = (1 / 2 :: real) ^ k" by (simp only:)
  then have "(1 / sqrt 2) ^ k * (1 / sqrt 2) ^ k = 1 / (2 :: real) ^ k"
    by (simp only: power_mult_distrib power_one_over)
  then have "complex_of_real ((1 / sqrt 2) ^ k * (1 / sqrt 2) ^ k) = complex_of_real (1 / 2 ^ k)"
    by (simp only:)
  then show ?thesis by (simp only: of_real_mult) simp
qed

lemma diffusion_mat:
  "diffusion k = mat (2 ^ k) (\<lambda>i j. 2 / 2 ^ k - delta i j)"
proof -
  let ?d = "(2::nat) ^ k"
  let ?r = "\<lambda>i j. (if i = 0 \<and> j = 0 then 2 else 0) - delta i j"
  have inner: "(\<Sum>l<?d. ?r m l * hent k l j) = (if m = 0 then 2 * hent k 0 j else 0) - hent k m j"
    if "m < ?d" for m j
  proof -
    have "(\<Sum>l<?d. ?r m l * hent k l j) =
          (\<Sum>l<?d. (if l = 0 then (if m = 0 then 2 * hent k 0 j else 0) else 0)
                   - (if l = m then hent k m j else 0))"
      by (rule sum.cong) (auto simp: delta_def)
    also have "\<dots> = (if m = 0 then 2 * hent k 0 j else 0) - hent k m j"
      using that by (simp add: sum_subtractf)
    finally show ?thesis .
  qed
  have hent_prod: "hent k i 0 * hent k 0 j = 1 / 2 ^ k" for i j
    by (simp only: hent_col0 hent_row0 half_power)
  have outer: "(\<Sum>m<?d. hent k i m * ((if m = 0 then 2 * hent k 0 j else 0) - hent k m j)) =
        2 / 2 ^ k - delta i j" if "i < ?d" "j < ?d" for i j
  proof -
    have "(\<Sum>m<?d. hent k i m * ((if m = 0 then 2 * hent k 0 j else 0) - hent k m j)) =
          (\<Sum>m<?d. (if m = 0 then 2 * (hent k i 0 * hent k 0 j) else 0) - hent k i m * hent k m j)"
      by (rule sum.cong) (auto simp: algebra_simps)
    also have "\<dots> = 2 * (hent k i 0 * hent k 0 j) - (\<Sum>m<?d. hent k i m * hent k m j)"
      by (simp add: sum_subtractf)
    also have "\<dots> = 2 / 2 ^ k - delta i j"
      using that by (simp add: hent_involution hent_prod)
    finally show ?thesis .
  qed
  have in_eq: "compose (mat ?d ?r) (mat ?d (hent k)) =
        mat ?d (\<lambda>m j. (if m = 0 then 2 * hent k 0 j else 0) - hent k m j)"
    unfolding compose_mat by (rule mat_cong) (rule inner)
  have "compose (mat ?d (hent k)) (compose (mat ?d ?r) (mat ?d (hent k))) =
        compose (mat ?d (hent k))
          (mat ?d (\<lambda>m j. (if m = 0 then 2 * hent k 0 j else 0) - hent k m j))"
    by (simp only: in_eq)
  also have "\<dots> = mat ?d (\<lambda>i j. 2 / 2 ^ k - delta i j)"
    unfolding compose_mat by (rule mat_cong) (rule outer)
  finally show ?thesis
    by (simp only: diffusion_def Let_def Hadamard_mat reflection_mat)
qed

lemma sum_list_nth: "sum_list c = (\<Sum>i<length c. c ! i)" for c :: "complex list"
  by (simp add: sum_list_sum_nth atLeast0LessThan)

lemma diffusion_entry:
  assumes len: "length c = 2 ^ n" and x: "x < 2 ^ n"
  shows "apply_op (diffusion n) c ! x = 2 * (sum_list c / of_nat (2 ^ n)) - c ! x"
proof -
  let ?d = "(2::nat) ^ n"
  have c: "c = vec ?d (\<lambda>i. c ! i)" using len by (simp add: vec_eta)
  have "apply_op (diffusion n) c ! x = (\<Sum>j<?d. (2 / 2 ^ n - delta x j) * c ! j)"
    by (subst c) (simp add: diffusion_mat apply_mat_vec x)
  also have "\<dots> = (\<Sum>j<?d. 2 / 2 ^ n * c ! j - (if j = x then c ! x else 0))"
    by (rule sum.cong) (auto simp: delta_def algebra_simps)
  also have "\<dots> = 2 / 2 ^ n * (\<Sum>j<?d. c ! j) - c ! x"
    using x by (simp add: sum_subtractf sum_distrib_left)
  also have "\<dots> = 2 * (sum_list c / of_nat (2 ^ n)) - c ! x"
    by (simp add: sum_list_nth len)
  finally show ?thesis .
qed

section \<open>The oracle\<close>

lemma boolean_onD: "boolean_on n f \<Longrightarrow> x < 2 ^ n \<Longrightarrow> f (val2bits x n) = 0 \<or> f (val2bits x n) = 1"
  by (simp add: boolean_on_def list_all_iff)

lemma OracleUf_mat:
  "boolean_on n f \<Longrightarrow>
   OracleUf (Suc n) f = Inr (mat (2 ^ Suc n) (\<lambda>r c. if r = oracle_perm n f c then 1 else 0))"
  by (simp add: OracleUf_def boolean_on_def oracle_perm_def)

lemma OracleUf_error: "\<not> boolean_on n f \<Longrightarrow> OracleUf (Suc n) f = Inl ConstructionError"
  by (simp add: OracleUf_def boolean_on_def)

lemma oracle_perm_less: "c < 2 ^ Suc n \<Longrightarrow> oracle_perm n f c < 2 ^ Suc n"
proof -
  assume "c < 2 ^ Suc n"
  then have "c div 2 < 2 ^ n" by simp
  then have "2 * (c div 2) + 2 \<le> 2 * 2 ^ n" by simp
  moreover have "(c mod 2 + nat (f (val2bits (c div 2) n))) mod 2 < 2" by simp
  ultimately show ?thesis unfolding oracle_perm_def by simp
qed

lemma oracle_perm_div: "oracle_perm n f c div 2 = c div 2"
  by (simp add: oracle_perm_def)

lemma oracle_perm_involution:
  assumes "boolean_on n f" "c < 2 ^ Suc n"
  shows "oracle_perm n f (oracle_perm n f c) = c"
proof -
  have "c div 2 < 2 ^ n" using assms(2) by simp
  then have "f (val2bits (c div 2) n) = 0 \<or> f (val2bits (c div 2) n) = 1"
    using assms(1) by (rule boolean_onD [rotated])
  then have "nat (f (val2bits (c div 2) n)) = 0 \<or> nat (f (val2bits (c div 2) n)) = 1" by auto
  moreover define b where "b = nat (f (val2bits (c div 2) n))"
  ultimately have b: "b = 0 \<or> b = 1" by simp
  have "oracle_perm n f (oracle_perm n f c) = 2 * (c div 2) + ((c mod 2 + b) mod 2 + b) mod 2"
    by (simp add: oracle_perm_def b_def)
  also have "((c mod 2 + b) mod 2 + b) mod 2 = c mod 2" using b by (auto simp: mod_add_left_eq)
  finally show ?thesis by simp
qed

lemma oracle_perm_bij:
  assumes "boolean_on n f"
  shows "bij_betw (oracle_perm n f) {..<2 ^ Suc n} {..<2 ^ Suc n}"
  by (rule bij_betw_byWitness [where f' = "oracle_perm n f"])
     (use assms in \<open>auto simp: oracle_perm_involution oracle_perm_less simp del: power_Suc\<close>)

lemma ket_kron: "x < 2 ^ n \<Longrightarrow> y < 2 \<Longrightarrow> kron_state (ket n x) (ket 1 y) = ket (Suc n) (2 * x + y)"
proof -
  assume x: "x < 2 ^ n" and y: "y < 2"
  have "(if i div 2 = x then 1 else 0) * (if i mod 2 = y then 1 else 0) =
        (if i = 2 * x + y then 1 else (0::complex))" for i
    using y by auto
  then show ?thesis
    unfolding ket_def kron_state_vec by (simp add: mult.commute)
qed

lemma apply_perm_ket:
  assumes "c < d"
  shows "apply_op (mat d (\<lambda>r k. if r = p k then 1 else 0)) (vec d (\<lambda>i. if i = c then 1 else 0)) =
         vec d (\<lambda>i. if i = p c then 1 else 0)"
proof -
  have "(\<Sum>k<d. (if r = p k then 1 else 0) * (if k = c then 1 else 0)) =
        (if r = p c then 1 else (0::complex))" for r
  proof -
    have "(\<Sum>k<d. (if r = p k then 1 else 0) * (if k = c then 1 else 0)) =
          (\<Sum>k<d. if k = c then (if r = p c then 1 else 0) else (0::complex))"
      by (rule sum.cong) auto
    also have "\<dots> = (if r = p c then 1 else 0)" using assms by simp
    finally show ?thesis .
  qed
  then show ?thesis by (simp only: apply_mat_vec)
qed

lemma perm_unitary:
  assumes inj: "\<And>i j. i < d \<Longrightarrow> j < d \<Longrightarrow> p i = p j \<Longrightarrow> i = j"
    and less: "\<And>i. i < d \<Longrightarrow> p i < d"
  shows "compose (adjoint (mat d (\<lambda>r c. if r = p c then 1 else 0)))
           (mat d (\<lambda>r c. if r = p c then 1 else 0)) = mat d delta"
proof -
  let ?u = "\<lambda>r c. if r = p c then 1 else (0::complex)"
  have adj: "adjoint (mat d ?u) = mat d (\<lambda>i j. cnj (?u j i))"
    unfolding adjoint_def length_mat by (rule mat_cong) simp
  have "(\<Sum>k<d. cnj (?u k i) * ?u k j) = delta i j" if "i < d" "j < d" for i j
  proof -
    have "(\<Sum>k<d. cnj (?u k i) * ?u k j) =
          (\<Sum>k<d. if k = p i then (if p i = p j then 1 else 0) else 0)"
      by (rule sum.cong) auto
    also have "\<dots> = (if p i = p j then 1 else 0)" using less [OF that(1)] by simp
    also have "\<dots> = delta i j" using inj [OF that] by (auto simp: delta_def)
    finally show ?thesis .
  qed
  then show ?thesis unfolding adj compose_mat by (intro mat_cong)
qed

lemma butlast_val2bits: "butlast (val2bits i (Suc n)) = val2bits (i div 2) n"
proof -
  have "butlast (val2bits i (Suc n)) = map (\<lambda>k. (i div 2 ^ (n - k)) mod 2) [0..<n]"
    by (simp add: val2bits_def butlast_append)
  also have "\<dots> = map (\<lambda>k. (i div 2 div 2 ^ (n - 1 - k)) mod 2) [0..<n]"
  proof (rule map_cong [OF refl])
    fix k assume "k \<in> set [0..<n]"
    then have "n - k = Suc (n - 1 - k)" by auto
    then show "i div 2 ^ (n - k) mod 2 = i div 2 div 2 ^ (n - 1 - k) mod 2"
      by (simp add: div_mult2_eq)
  qed
  finally show ?thesis by (simp add: val2bits_def)
qed

section \<open>Claims on the diffusion operator\<close>

text \<open>
  C2. The diffusion operator of lines 54 to 56, 83 and 84, \<open>H (2 P0 - I) H\<close> with \<open>P0\<close>
  the projector onto the all-zero basis state, inverts about the mean: for every complex
  vector \<open>c\<close> of length \<open>N = 2 ^ n\<close> and every index \<open>x\<close>, component \<open>x\<close> of \<open>D c\<close> is
  twice the mean of \<open>c\<close> minus \<open>c ! x\<close>.
\<close>

theorem diffusion_inverts_about_mean:
  assumes "length c = 2 ^ n" and "x < 2 ^ n"
  shows "diffusion n =
           compose (Hadamard n)
             (compose (op_minus (scale (op_zero n) 2) (Identity n)) (Hadamard n))
         \<and> op_zero n = mat (2 ^ n) (\<lambda>i j. if i = 0 \<and> j = 0 then 1 else 0)
         \<and> length (apply_op (diffusion n) c) = length c
         \<and> apply_op (diffusion n) c ! x = 2 * (sum_list c / of_nat (length c)) - c ! x"
proof (intro conjI)
  show "diffusion n =
      compose (Hadamard n) (compose (op_minus (scale (op_zero n) 2) (Identity n)) (Hadamard n))"
    by (simp add: diffusion_def reflection_def Let_def)
  show "op_zero n = mat (2 ^ n) (\<lambda>i j. if i = 0 \<and> j = 0 then 1 else 0)"
    by (rule op_zero_mat)
  show "length (apply_op (diffusion n) c) = length c"
    using assms(1) by (simp add: apply_op_def diffusion_mat)
  show "apply_op (diffusion n) c ! x = 2 * (sum_list c / of_nat (length c)) - c ! x"
    using diffusion_entry [OF assms] assms(1) by simp
qed

theorem diffusion_inverts_about_mean_witness:
  "apply_op (diffusion 1) [1, 3] ! 0 = 3 \<and> apply_op (diffusion 1) [1, 3] ! 1 = 1"
proof -
  have len: "length [1, 3 :: complex] = 2 ^ 1" by simp
  have "apply_op (diffusion 1) [1, 3] ! 0 =
        2 * (sum_list [1, 3] / of_nat (length [1, 3 :: complex])) - [1, 3] ! 0"
    by (rule diffusion_inverts_about_mean [OF len, THEN conjunct2, THEN conjunct2, THEN conjunct2])
       simp
  moreover have "apply_op (diffusion 1) [1, 3] ! 1 =
        2 * (sum_list [1, 3] / of_nat (length [1, 3 :: complex])) - [1, 3] ! 1"
    by (rule diffusion_inverts_about_mean [OF len, THEN conjunct2, THEN conjunct2, THEN conjunct2])
       simp
  ultimately show ?thesis by simp
qed

lemma inversion_mat:
  "inversion n = mat (2 ^ Suc n) (\<lambda>i j. (2 / 2 ^ n - delta (i div 2) (j div 2)) * delta (i mod 2) (j mod 2))"
proof -
  have "inversion n = kron (mat (2 ^ n) (\<lambda>i j. 2 / 2 ^ n - delta i j)) (mat (2 ^ 1) delta)"
    by (simp only: inversion_def diffusion_mat Identity_mat)
  then show ?thesis by (simp add: kron_mat mult.commute)
qed

lemma apply_compose_sq:
  assumes "square d A" "square d B" "length psi = d"
  shows "apply_op (compose A B) psi = apply_op A (apply_op B psi)"
proof -
  have "apply_op (compose (mat d (\<lambda>i j. A ! i ! j)) (mat d (\<lambda>i j. B ! i ! j))) (vec d (\<lambda>i. psi ! i)) =
        apply_op (mat d (\<lambda>i j. A ! i ! j)) (apply_op (mat d (\<lambda>i j. B ! i ! j)) (vec d (\<lambda>i. psi ! i)))"
    by (rule apply_compose)
  then show ?thesis using assms by (simp only: mat_eta vec_eta)
qed

lemma apply_inversion_kron:
  assumes "length phi = 2 ^ n" "length v = 2"
  shows "apply_op (inversion n) (kron_state phi v) = kron_state (apply_op (diffusion n) phi) v"
proof -
  let ?D = "\<lambda>i j. 2 / 2 ^ n - delta i j"
  have phi: "phi = vec (2 ^ n) (\<lambda>i. phi ! i)" and v: "v = vec 2 (\<lambda>i. v ! i)"
    using assms by (simp_all add: vec_eta)
  have id: "apply_op (mat 2 delta) (vec 2 (\<lambda>i. v ! i)) = vec 2 (\<lambda>i. v ! i)"
    unfolding apply_mat_vec by (rule vec_cong) (auto simp: sum2 delta_def dest!: less_2_cases)
  have "apply_op (kron (mat (2 ^ n) ?D) (mat 2 delta))
          (kron_state (vec (2 ^ n) (\<lambda>i. phi ! i)) (vec 2 (\<lambda>i. v ! i))) =
        kron_state (apply_op (mat (2 ^ n) ?D) (vec (2 ^ n) (\<lambda>i. phi ! i)))
          (apply_op (mat 2 delta) (vec 2 (\<lambda>i. v ! i)))"
    by (rule apply_kron)
  then have "apply_op (kron (diffusion n) (Identity 1))
          (kron_state (vec (2 ^ n) (\<lambda>i. phi ! i)) (vec 2 (\<lambda>i. v ! i))) =
        kron_state (apply_op (diffusion n) (vec (2 ^ n) (\<lambda>i. phi ! i))) (vec 2 (\<lambda>i. v ! i))"
    by (simp only: id diffusion_mat Identity_mat power_one_right)
  then show ?thesis using phi v by (simp only: inversion_def)
qed

section \<open>Claims on the oracle and the outcome selector\<close>

lemma oracle_on_basis:
  assumes "boolean_on n f" "x < 2 ^ n" "y < 2"
  shows "apply_op (mat (2 ^ Suc n) (\<lambda>r c. if r = oracle_perm n f c then 1 else 0))
           (kron_state (ket n x) (ket 1 y)) =
         kron_state (ket n x) (ket 1 ((y + nat (f (val2bits x n))) mod 2))"
proof -
  have c: "2 * x + y < 2 ^ Suc n" using assms(2,3) by simp
  have "oracle_perm n f (2 * x + y) = 2 * x + (y + nat (f (val2bits x n))) mod 2"
    using assms(3) by (simp add: oracle_perm_def)
  then have "apply_op (mat (2 ^ Suc n) (\<lambda>r c. if r = oracle_perm n f c then 1 else 0))
           (ket (Suc n) (2 * x + y)) =
         ket (Suc n) (2 * x + (y + nat (f (val2bits x n))) mod 2)"
    unfolding ket_def using apply_perm_ket [OF c, of "oracle_perm n f"] by (simp only:)
  moreover have "kron_state (ket n x) (ket 1 y) = ket (Suc n) (2 * x + y)"
    by (rule ket_kron [OF assms(2,3)])
  moreover have "kron_state (ket n x) (ket 1 ((y + nat (f (val2bits x n))) mod 2)) =
        ket (Suc n) (2 * x + (y + nat (f (val2bits x n))) mod 2)"
    by (rule ket_kron [OF assms(2)]) simp
  ultimately show ?thesis by (simp only:)
qed

lemma oracle_unitary:
  assumes "boolean_on n f"
  shows "compose (adjoint (mat (2 ^ Suc n) (\<lambda>r c. if r = oracle_perm n f c then 1 else 0)))
           (mat (2 ^ Suc n) (\<lambda>r c. if r = oracle_perm n f c then 1 else 0)) = Identity (Suc n)"
  unfolding Identity_mat
proof (rule perm_unitary)
  fix i j :: nat assume "i < 2 ^ Suc n" "j < 2 ^ Suc n" "oracle_perm n f i = oracle_perm n f j"
  then show "i = j"
    by (metis oracle_perm_involution [OF assms])
next
  fix i :: nat assume "i < 2 ^ Suc n"
  then show "oracle_perm n f i < 2 ^ Suc n" by (rule oracle_perm_less)
qed

text \<open>
  C5. For every \<open>n\<close> and every predicate \<open>f\<close> with values 0 and 1 on the \<open>n\<close>-bit strings, the
  oracle over \<open>n + 1\<close> lines is built, sends every basis state \<open>|x>|y>\<close> to
  \<open>|x>|y xor f(x)>\<close>, is the matrix of a permutation of the basis indices, and is unitary:
  its conjugate transpose times itself is the identity.
\<close>

theorem oracle_is_xor_permutation:
  assumes "boolean_on n f"
  shows "\<exists>U. OracleUf (n + 1) f = Inr U
     \<and> (\<forall>x<2 ^ n. \<forall>y<2.
           apply_op U (kron_state (ket n x) (ket 1 y)) =
           kron_state (ket n x) (ket 1 ((y + nat (f (val2bits x n))) mod 2)))
     \<and> (\<exists>p. bij_betw p {..<2 ^ (n + 1)} {..<2 ^ (n + 1)}
           \<and> U = mat (2 ^ (n + 1)) (\<lambda>r c. if r = p c then 1 else 0))
     \<and> compose (adjoint U) U = Identity (n + 1)"
proof -
  let ?U = "mat (2 ^ Suc n) (\<lambda>r c. if r = oracle_perm n f c then 1 else 0)"
  have "OracleUf (n + 1) f = Inr ?U" using OracleUf_mat [OF assms] by simp
  moreover have "\<forall>x<2 ^ n. \<forall>y<2.
           apply_op ?U (kron_state (ket n x) (ket 1 y)) =
           kron_state (ket n x) (ket 1 ((y + nat (f (val2bits x n))) mod 2))"
    using oracle_on_basis [OF assms] by blast
  moreover have "\<exists>p. bij_betw p {..<2 ^ (n + 1)} {..<2 ^ (n + 1)}
           \<and> ?U = mat (2 ^ (n + 1)) (\<lambda>r c. if r = p c then 1 else 0)"
    using oracle_perm_bij [OF assms] by (intro exI [of _ "oracle_perm n f"]) simp
  moreover have "compose (adjoint ?U) ?U = Identity (n + 1)"
    using oracle_unitary [OF assms] by simp
  ultimately show ?thesis by blast
qed

lemma bits2val_empty: "bits2val [] = 0"
  by (simp add: bits2val_def)

lemma val2bits_one: "val2bits x (Suc 0) = [x mod 2]"
  by (simp add: val2bits_def)

lemma boolean_on_make_f_1_1: "boolean_on 1 (make_f 1 1)"
  by (simp add: boolean_on_def make_f_def val2bits_one bits2val_def upt_rec numeral_2_eq_2)

theorem oracle_is_xor_permutation_witness:
  "\<exists>U. OracleUf (1 + 1) (make_f 1 1) = Inr U
     \<and> (\<forall>x<2 ^ 1. \<forall>y<2.
           apply_op U (kron_state (ket 1 x) (ket 1 y)) =
           kron_state (ket 1 x) (ket 1 ((y + nat (make_f 1 1 (val2bits x 1))) mod 2)))
     \<and> (\<exists>p. bij_betw p {..<2 ^ (1 + 1)} {..<2 ^ (1 + 1)}
           \<and> U = mat (2 ^ (1 + 1)) (\<lambda>r c. if r = p c then 1 else 0))
     \<and> compose (adjoint U) U = Identity (1 + 1)"
  by (rule oracle_is_xor_permutation [OF boolean_on_make_f_1_1])

text \<open>
  C6. The outcome selector of lines 113 to 117 evaluates the predicate on the winning bit
  string without its last bit, the ancilla: of the string of basis index \<open>i\<close> over
  \<open>n + 1\<close> lines that leaves the string of \<open>i div 2\<close> over \<open>n\<close> lines. It raises the
  assertion error exactly when the predicate's value there is not 1, and returns normally
  exactly when it is 1.
\<close>

theorem outcome_selector_raises_iff:
  "(outcome_selector psi f = Inl AssertionError) = (f (butlast (fst (maxprob psi))) \<noteq> 1)
   \<and> (outcome_selector psi f = Inr ()) = (f (butlast (fst (maxprob psi))) = 1)
   \<and> butlast (val2bits i (n + 1)) = val2bits (i div 2) n"
  using butlast_val2bits [of i n]
  by (simp add: outcome_selector_def Let_def split_beta)

section \<open>The initial state\<close>

lemma Hadamard_one: "Hadamard 1 = mat 2 h1"
proof -
  have "Hadamard 1 = mat (2 ^ 1) (hent 1)" by (rule Hadamard_mat)
  also have "\<dots> = mat 2 h1" unfolding power_one_right
    by (rule mat_cong) simp
  finally show ?thesis .
qed

lemma minus_state: "apply_op (Hadamard 1) (ones 1) = vec 2 minus_amp"
proof -
  have "ones 1 = vec 2 (\<lambda>i. if i = 1 then 1 else 0)" by (simp add: ones_def ket_def)
  then have "apply_op (Hadamard 1) (ones 1) = vec 2 (\<lambda>i. \<Sum>k<2. h1 i k * (if k = 1 then 1 else 0))"
    by (simp only: Hadamard_one apply_mat_vec)
  also have "\<dots> = vec 2 minus_amp"
    by (rule vec_cong) (auto simp: sum2 h1_def minus_amp_def)
  finally show ?thesis .
qed

lemma bit_split:
  fixes idx s :: nat
  assumes s: "0 < s"
  defines "b \<equiv> (idx div s) mod 2"
  shows "(idx - b * s) mod (2 * s) = idx mod s"
    and "(idx - b * s + s) mod (2 * s) = idx mod s + s"
    and "idx - b * s + s < 2 * s * (idx div (2 * s)) + 2 * s"
    and "idx - b * s \<le> idx"
proof -
  define q where "q = idx div (2 * s)"
  define r where "r = idx mod s"
  have r: "r < s" using s by (simp add: r_def)
  have "idx mod (s * 2) = s * (idx div s mod 2) + idx mod s" by (rule mod_mult2_eq)
  then have m: "idx mod (2 * s) = b * s + r" by (simp add: b_def r_def mult.commute)
  have "idx = 2 * s * q + idx mod (2 * s)" by (simp add: q_def)
  then have idx: "idx = 2 * s * q + b * s + r" unfolding m by simp
  then have base: "idx - b * s = 2 * s * q + r" by simp
  show "(idx - b * s) mod (2 * s) = idx mod s"
    unfolding base using r by (simp add: r_def)
  have "(2 * s * q + (r + s)) mod (2 * s) = r + s" using r by simp
  then show "(idx - b * s + s) mod (2 * s) = idx mod s + s"
    unfolding base by (simp add: r_def add.assoc)
  show "idx - b * s + s < 2 * s * (idx div (2 * s)) + 2 * s"
    unfolding base using r by (simp add: q_def)
  show "idx - b * s \<le> idx" by simp
qed

lemma base_in_range:
  fixes idx s m :: nat
  assumes "0 < s" "idx < 2 * s * m"
  shows "idx - ((idx div s) mod 2) * s + s < 2 * s * m"
    and "idx - ((idx div s) mod 2) * s < 2 * s * m"
proof -
  have "idx div (2 * s) < m" using assms by (simp add: less_mult_imp_div_less mult.commute)
  then have "idx div (2 * s) + 1 \<le> m" by simp
  then have "2 * s * (idx div (2 * s) + 1) \<le> 2 * s * m" by (rule mult_le_mono2)
  then have "2 * s * (idx div (2 * s)) + 2 * s \<le> 2 * s * m" by (simp add: algebra_simps)
  with bit_split(3) [OF assms(1), of idx]
  show "idx - ((idx div s) mod 2) * s + s < 2 * s * m" by linarith
  then show "idx - ((idx div s) mod 2) * s < 2 * s * m" by simp
qed

lemma apply_gate_step:
  fixes n i :: nat
  assumes i: "i \<le> n"
  defines "s \<equiv> 2 ^ (n - i)"
  shows "apply_gate (vec (2 ^ Suc n) F) (mat 2 g) i =
         vec (2 ^ Suc n)
           (\<lambda>idx. g ((idx div s) mod 2) 0 * F (idx - ((idx div s) mod 2) * s)
                + g ((idx div s) mod 2) 1 * F (idx - ((idx div s) mod 2) * s + s))"
proof -
  have "(2::nat) ^ (Suc n - Suc i) = 2 ^ Suc n div 2 ^ Suc i"
    using i by (intro power_diff) simp_all
  then have s: "(2::nat) ^ Suc n div 2 ^ Suc i = s" by (simp add: s_def)
  have spos: "0 < s" by (simp add: s_def)
  have "(2::nat) ^ Suc n = 2 ^ Suc (n - i) * 2 ^ i"
    using i by (simp add: power_add [symmetric] del: power_Suc)
  then have d: "(2::nat) ^ Suc n = 2 * s * 2 ^ i" by (simp add: s_def)
  show ?thesis
    unfolding apply_gate_def length_vec s Let_def
  proof (rule vec_cong)
    fix idx :: nat assume "idx < 2 ^ Suc n"
    then have lt: "idx < 2 * s * 2 ^ i" by (simp only: d)
    have b1: "idx - ((idx div s) mod 2) * s + s < 2 ^ Suc n"
      and b0: "idx - ((idx div s) mod 2) * s < 2 ^ Suc n"
      using base_in_range [OF spos lt] by (simp_all only: d)
    have b: "(idx div s) mod 2 < 2" by simp
    show "mat 2 g ! (idx div s mod 2) ! 0 * vec (2 ^ Suc n) F ! (idx - idx div s mod 2 * s) +
          mat 2 g ! (idx div s mod 2) ! 1 * vec (2 ^ Suc n) F ! (idx - idx div s mod 2 * s + s) =
          g (idx div s mod 2) 0 * F (idx - idx div s mod 2 * s) +
          g (idx div s mod 2) 1 * F (idx - idx div s mod 2 * s + s)"
      using b0 b1 b by (simp only: nth_vec nth_mat zero_less_numeral one_less_numeral_iff
          semiring_norm)
  qed
qed

lemma hadamard_line:
  assumes "i < n"
  shows "apply_gate
           (vec (2 ^ Suc n) (\<lambda>idx. c * (if idx mod 2 ^ (Suc n - i) = 1 then 1 else 0)))
           (mat 2 h1) i =
         vec (2 ^ Suc n)
           (\<lambda>idx. complex_of_real (1 / sqrt 2) * c * (if idx mod 2 ^ (Suc n - Suc i) = 1 then 1 else 0))"
proof -
  define s :: nat where "s = 2 ^ (n - i)"
  have spos: "0 < s" by (simp add: s_def)
  have "n - i = Suc (n - Suc i)" using assms by simp
  then have s2: "2 \<le> s" by (simp add: s_def)
  have two_s: "(2::nat) ^ (Suc n - i) = 2 * s"
    using assms by (simp add: s_def Suc_diff_le)
  have s': "(2::nat) ^ (Suc n - Suc i) = s" by (simp add: s_def)
  show ?thesis
    unfolding apply_gate_step [OF less_imp_le [OF assms]] two_s s' s_def [symmetric]
  proof (rule vec_cong)
    fix idx :: nat
    have "(idx - idx div s mod 2 * s) mod (2 * s) = idx mod s"
      by (rule bit_split(1) [OF spos])
    moreover have "(idx - idx div s mod 2 * s + s) mod (2 * s) = idx mod s + s"
      by (rule bit_split(2) [OF spos])
    moreover have "idx mod s + s \<noteq> 1" using s2 by simp
    ultimately show "h1 (idx div s mod 2) 0 *
          (c * (if (idx - idx div s mod 2 * s) mod (2 * s) = 1 then 1 else 0)) +
          h1 (idx div s mod 2) 1 *
          (c * (if (idx - idx div s mod 2 * s + s) mod (2 * s) = 1 then 1 else 0)) =
          complex_of_real (1 / sqrt 2) * c * (if idx mod s = 1 then 1 else 0)"
      by (simp add: h1_def)
  qed
qed

lemma hadamard_ancilla:
  "apply_gate (vec (2 ^ Suc n) (\<lambda>idx. c * (if idx mod 2 ^ (Suc n - n) = 1 then 1 else 0)))
     (mat 2 h1) n =
   vec (2 ^ Suc n) (\<lambda>idx. c * minus_amp (idx mod 2))"
  unfolding apply_gate_step [OF le_refl]
  by (rule vec_cong) (auto simp: h1_def minus_amp_def)

lemma register_ket: "kron_state (zeros n) (ones 1) = ket (Suc n) 1"
proof -
  have "kron_state (ket n 0) (ket 1 1) = ket (Suc n) (2 * 0 + 1)"
    by (rule ket_kron) simp_all
  then show ?thesis by (simp add: zeros_def ones_def)
qed

lemma init_prefix:
  assumes "i \<le> n"
  shows "foldl (\<lambda>psi j. apply_gate psi (Hadamard 1) j) (ket (Suc n) 1) [0..<i] =
         vec (2 ^ Suc n)
           (\<lambda>idx. complex_of_real ((1 / sqrt 2) ^ i) * (if idx mod 2 ^ (Suc n - i) = 1 then 1 else 0))"
  using assms
proof (induction i)
  case 0
  have "ket (Suc n) 1 =
        vec (2 ^ Suc n) (\<lambda>idx. complex_of_real ((1 / sqrt 2) ^ 0) * (if idx mod 2 ^ (Suc n - 0) = 1 then 1 else 0))"
    unfolding ket_def by (rule vec_cong) simp
  then show ?case by simp
next
  case (Suc i)
  then have i: "i < n" by simp
  have "foldl (\<lambda>psi j. apply_gate psi (Hadamard 1) j) (ket (Suc n) 1) [0..<Suc i] =
        apply_gate (foldl (\<lambda>psi j. apply_gate psi (Hadamard 1) j) (ket (Suc n) 1) [0..<i])
          (Hadamard 1) i"
    by simp
  also have "\<dots> = apply_gate
      (vec (2 ^ Suc n)
        (\<lambda>idx. complex_of_real ((1 / sqrt 2) ^ i) * (if idx mod 2 ^ (Suc n - i) = 1 then 1 else 0)))
      (mat 2 h1) i"
    using Suc.IH i by (simp only: Hadamard_one less_imp_le)
  also have "\<dots> = vec (2 ^ Suc n)
      (\<lambda>idx. complex_of_real (1 / sqrt 2) * complex_of_real ((1 / sqrt 2) ^ i) *
            (if idx mod 2 ^ (Suc n - Suc i) = 1 then 1 else 0))"
    by (rule hadamard_line [OF i])
  also have "\<dots> = vec (2 ^ Suc n)
      (\<lambda>idx. complex_of_real ((1 / sqrt 2) ^ Suc i) * (if idx mod 2 ^ (Suc n - Suc i) = 1 then 1 else 0))"
    by (rule vec_cong) (simp only: power_Suc of_real_mult)
  finally show ?case .
qed

lemma initial_state_product:
  "initial_state n = kron_state (uniform n) (apply_op (Hadamard 1) (ones 1))"
proof -
  let ?step = "\<lambda>psi j. apply_gate psi (Hadamard 1) j"
  have "initial_state n = foldl ?step (ket (Suc n) 1) [0..<Suc n]"
    by (simp only: initial_state_def Let_def register_ket Suc_eq_plus1)
  also have "\<dots> = apply_gate (foldl ?step (ket (Suc n) 1) [0..<n]) (Hadamard 1) n"
    by simp
  also have "\<dots> = apply_gate
      (vec (2 ^ Suc n)
        (\<lambda>idx. complex_of_real ((1 / sqrt 2) ^ n) * (if idx mod 2 ^ (Suc n - n) = 1 then 1 else 0)))
      (mat 2 h1) n"
    using init_prefix [OF le_refl, of n] by (simp only: Hadamard_one)
  also have "\<dots> = vec (2 ^ Suc n) (\<lambda>idx. complex_of_real ((1 / sqrt 2) ^ n) * minus_amp (idx mod 2))"
    by (rule hadamard_ancilla)
  also have "\<dots> = kron_state (uniform n) (vec 2 minus_amp)"
    unfolding uniform_def kron_state_vec by (simp add: mult.commute)
  finally show ?thesis by (simp only: minus_state)
qed

lemma apply_involution_perm:
  assumes inv: "\<And>c. c < d \<Longrightarrow> p (p c) = c" and less: "\<And>c. c < d \<Longrightarrow> p c < d"
  shows "apply_op (mat d (\<lambda>r c. if r = p c then 1 else 0)) (vec d F) = vec d (\<lambda>r. F (p r))"
  unfolding apply_mat_vec
proof (rule vec_cong)
  fix r assume r: "r < d"
  have "(\<Sum>k<d. (if r = p k then 1 else 0) * F k) = (\<Sum>k<d. if k = p r then F (p r) else 0)"
  proof (rule sum.cong [OF refl])
    fix k assume "k \<in> {..<d}"
    then have "k < d" by simp
    then have "(r = p k) = (k = p r)" using inv [OF r] inv [of k] by auto
    then show "(if r = p k then 1 else 0) * F k = (if k = p r then F (p r) else 0)" by auto
  qed
  also have "\<dots> = F (p r)" using less [OF r] by simp
  finally show "(\<Sum>k<d. (if r = p k then 1 else 0) * F k) = F (p r)" .
qed

lemma oracle_kickback:
  assumes b: "boolean_on n f" and len: "length phi = 2 ^ n"
  shows "apply_op (mat (2 ^ Suc n) (\<lambda>r c. if r = oracle_perm n f c then 1 else 0))
           (kron_state phi (vec 2 minus_amp)) =
         kron_state (phase_flip n f phi) (vec 2 minus_amp)"
proof -
  let ?F = "\<lambda>i. phi ! (i div 2) * minus_amp (i mod 2)"
  have phi: "phi = vec (2 ^ n) (\<lambda>i. phi ! i)" using len by (simp add: vec_eta)
  have e: "(2::nat) ^ n * 2 = 2 ^ Suc n" by simp
  have "kron_state (vec (2 ^ n) (\<lambda>i. phi ! i)) (vec 2 minus_amp) = vec (2 ^ n * 2) ?F"
    by (rule kron_state_vec)
  then have lhs: "kron_state phi (vec 2 minus_amp) = vec (2 ^ Suc n) ?F"
    using phi by (simp add: mult.commute)
  have "apply_op (mat (2 ^ Suc n) (\<lambda>r c. if r = oracle_perm n f c then 1 else 0)) (vec (2 ^ Suc n) ?F) =
        vec (2 ^ Suc n) (\<lambda>r. ?F (oracle_perm n f r))"
    by (rule apply_involution_perm) (rule oracle_perm_involution [OF b], assumption, rule oracle_perm_less)
  also have "\<dots> = vec (2 ^ Suc n)
        (\<lambda>r. (if f (val2bits (r div 2) n) = 1 then - 1 else 1) * phi ! (r div 2) * minus_amp (r mod 2))"
  proof (rule vec_cong)
    fix r :: nat assume "r < 2 ^ Suc n"
    then have "r div 2 < 2 ^ n" by simp
    then have fb: "f (val2bits (r div 2) n) = 0 \<or> f (val2bits (r div 2) n) = 1"
      using b by (rule boolean_onD [rotated])
    have r2: "r mod 2 = 0 \<or> r mod 2 = 1" by auto
    have "oracle_perm n f r mod 2 = (r mod 2 + nat (f (val2bits (r div 2) n))) mod 2"
      by (simp add: oracle_perm_def)
    then have "minus_amp (oracle_perm n f r mod 2) =
          (if f (val2bits (r div 2) n) = 1 then - 1 else 1) * minus_amp (r mod 2)"
      using fb r2 by (auto simp: minus_amp_def)
    then show "phi ! (oracle_perm n f r div 2) * minus_amp (oracle_perm n f r mod 2) =
          (if f (val2bits (r div 2) n) = 1 then - 1 else 1) * phi ! (r div 2) * minus_amp (r mod 2)"
      by (simp add: oracle_perm_div)
  qed
  also have "\<dots> = kron_state (phase_flip n f phi) (vec 2 minus_amp)"
    unfolding phase_flip_def kron_state_vec e ..
  finally show ?thesis by (simp only: lhs)
qed

section \<open>The amplification loop on product states\<close>

lemma length_search_step [simp]: "length (search_step n f phi) = 2 ^ n"
  by (simp add: search_step_def apply_op_def diffusion_mat)

lemma length_phase_flip [simp]: "length (phase_flip n f phi) = 2 ^ n"
  by (simp add: phase_flip_def)

lemma length_kron_state [simp]: "length (kron_state u v) = length u * length v"
  by (simp add: kron_state_def)

lemma grover_step:
  assumes b: "boolean_on n f" and len: "length phi = 2 ^ n"
  shows "apply_op (grover n (mat (2 ^ Suc n) (\<lambda>r c. if r = oracle_perm n f c then 1 else 0)))
           (kron_state phi (vec 2 minus_amp)) =
         kron_state (search_step n f phi) (vec 2 minus_amp)"
proof -
  let ?U = "mat (2 ^ Suc n) (\<lambda>r c. if r = oracle_perm n f c then 1 else 0)"
  let ?m = "vec 2 minus_amp"
  have "square (2 ^ Suc n) (inversion n)" by (simp only: inversion_mat square_mat)
  moreover have "square (2 ^ Suc n) ?U" by (rule square_mat)
  moreover have "length (kron_state phi ?m) = 2 ^ Suc n" using len by simp
  ultimately have "apply_op (compose (inversion n) ?U) (kron_state phi ?m) =
        apply_op (inversion n) (apply_op ?U (kron_state phi ?m))"
    by (rule apply_compose_sq)
  also have "\<dots> = apply_op (inversion n) (kron_state (phase_flip n f phi) ?m)"
    by (simp only: oracle_kickback [OF b len])
  also have "\<dots> = kron_state (apply_op (diffusion n) (phase_flip n f phi)) ?m"
    by (rule apply_inversion_kron) simp_all
  finally show ?thesis by (simp only: grover_def search_step_def)
qed

lemma amplify_product:
  assumes b: "boolean_on n f" and len: "length phi = 2 ^ n"
  shows "amplify (grover n (mat (2 ^ Suc n) (\<lambda>r c. if r = oracle_perm n f c then 1 else 0))) k
           (kron_state phi (vec 2 minus_amp)) =
         kron_state ((search_step n f ^^ k) phi) (vec 2 minus_amp)"
  using len
proof (induction k arbitrary: phi)
  case 0
  show ?case by simp
next
  case (Suc k)
  have "length (search_step n f phi) = 2 ^ n" by simp
  then show ?case
    by (simp only: amplify.simps grover_step [OF b Suc.prems] Suc.IH funpow_Suc_right o_apply)
qed

lemma length_funpow_search_step:
  "length phi = 2 ^ n \<Longrightarrow> length ((search_step n f ^^ k) phi) = 2 ^ n"
  by (cases k) simp_all

lemma length_uniform [simp]: "length (uniform n) = 2 ^ n"
  by (simp add: uniform_def)

text \<open>
  C10. All lines, the ancilla included, get a Hadamard gate before the loop, which puts the
  ancilla into \<open>H|1>\<close>; each Grover iterate is the padded diffusion composed with the XOR
  oracle. For a predicate with values 0 and 1 the state after any number of iterations of
  the amplification loop is a product of a state of the \<open>n\<close> search lines with the ancilla
  state \<open>H|1>\<close>: the ancilla factor never changes.
\<close>

theorem ancilla_stays_minus:
  assumes "boolean_on n f"
  shows "\<exists>u. OracleUf (n + 1) f = Inr u
     \<and> (\<forall>k. \<exists>phi. length phi = 2 ^ n
           \<and> amplify (grover n u) k (initial_state n) =
               kron_state phi (apply_op (Hadamard 1) (ones 1)))"
proof -
  let ?U = "mat (2 ^ Suc n) (\<lambda>r c. if r = oracle_perm n f c then 1 else 0)"
  have "OracleUf (n + 1) f = Inr ?U" using OracleUf_mat [OF assms] by simp
  moreover have "\<exists>phi. length phi = 2 ^ n
           \<and> amplify (grover n ?U) k (initial_state n) =
               kron_state phi (apply_op (Hadamard 1) (ones 1))" for k
  proof (intro exI conjI)
    show "length ((search_step n f ^^ k) (uniform n)) = 2 ^ n"
      by (rule length_funpow_search_step) simp
    show "amplify (grover n ?U) k (initial_state n) =
               kron_state ((search_step n f ^^ k) (uniform n)) (apply_op (Hadamard 1) (ones 1))"
      using amplify_product [OF assms length_uniform]
      by (simp only: initial_state_product minus_state)
  qed
  ultimately show ?thesis by blast
qed

theorem ancilla_stays_minus_witness:
  "\<exists>u. OracleUf (1 + 1) (make_f 1 1) = Inr u
     \<and> (\<forall>k. \<exists>phi. length phi = 2 ^ 1
           \<and> amplify (grover 1 u) k (initial_state 1) =
               kron_state phi (apply_op (Hadamard 1) (ones 1)))"
  by (rule ancilla_stays_minus [OF boolean_on_make_f_1_1])

section \<open>The amplitudes of a search with one marked input\<close>

lemma val2bits_Suc: "val2bits x (Suc n) = val2bits (x div 2) n @ [x mod 2]"
proof -
  have "val2bits x (Suc n) \<noteq> []" by (simp add: val2bits_def)
  then have "val2bits x (Suc n) = butlast (val2bits x (Suc n)) @ [last (val2bits x (Suc n))]"
    by simp
  moreover have "last (val2bits x (Suc n)) = x mod 2" by (simp add: val2bits_def)
  ultimately show ?thesis by (simp only: butlast_val2bits)
qed

lemma bits2val_val2bits_mod: "bits2val (val2bits x n) = x mod 2 ^ n"
proof (induction n arbitrary: x)
  case 0
  show ?case by (simp add: bits2val_def val2bits_def)
next
  case (Suc n)
  have "bits2val (val2bits x (Suc n)) = 2 * bits2val (val2bits (x div 2) n) + x mod 2"
    by (simp add: val2bits_Suc bits2val_def)
  also have "\<dots> = 2 * ((x div 2) mod 2 ^ n) + x mod 2" by (simp only: Suc.IH)
  also have "\<dots> = x mod 2 ^ Suc n"
    using mod_mult2_eq [of x 2 "2 ^ n"] by simp
  finally show ?case .
qed

lemma bits2val_val2bits: "x < 2 ^ n \<Longrightarrow> bits2val (val2bits x n) = x"
  by (simp add: bits2val_val2bits_mod)

lemma make_f_val2bits:
  assumes "m < 2 ^ n" "x < 2 ^ n"
  shows "make_f n m (val2bits x n) = (if x = m then 1 else 0)"
  using assms by (simp add: make_f_def bits2val_val2bits nth_list_update)

lemma boolean_on_make_f: "m < 2 ^ n \<Longrightarrow> boolean_on n (make_f n m)"
  by (simp add: boolean_on_def list_all_iff make_f_val2bits)

lemma phase_flip_two_level:
  assumes "m < 2 ^ n"
  shows "phase_flip n (make_f n m) (two_level n m a b) = two_level n m (- a) b"
  unfolding phase_flip_def two_level_def
  by (rule vec_cong) (simp add: make_f_val2bits [OF assms])

lemma sum_two_level:
  assumes "m < d"
  shows "(\<Sum>x<d. complex_of_real (if x = m then a else b)) = complex_of_real ((real d - 1) * b + a)"
proof -
  have "(\<Sum>x<d. complex_of_real (if x = m then a else b)) =
        (\<Sum>x<d. complex_of_real b + (if x = m then complex_of_real (a - b) else 0))"
    by (rule sum.cong) auto
  also have "\<dots> = of_nat d * complex_of_real b + complex_of_real (a - b)"
    using assms by (simp add: sum.distrib)
  also have "\<dots> = complex_of_real ((real d - 1) * b + a)"
    by (simp add: algebra_simps)
  finally show ?thesis .
qed

lemma search_step_two_level:
  assumes m: "m < 2 ^ n"
  shows "search_step n (make_f n m) (two_level n m a b) =
         two_level n m (fst (amp_step (2 ^ n) (a, b))) (snd (amp_step (2 ^ n) (a, b)))"
proof -
  let ?c = "two_level n m (- a) b"
  let ?u = "((2 ^ n - 1) * b - a) / (2 ^ n :: real)"
  have len: "length ?c = 2 ^ n" by (simp add: two_level_def)
  have total: "sum_list ?c = complex_of_real ((2 ^ n - 1) * b - a)"
    using sum_two_level [OF m, of "- a" b] by (simp add: sum_list_nth two_level_def)
  have mean: "sum_list ?c / of_nat (2 ^ n) = complex_of_real ?u"
    by (simp add: total)
  have "apply_op (diffusion n) ?c = vec (2 ^ n) (\<lambda>x. apply_op (diffusion n) ?c ! x)"
    by (rule vec_eta [symmetric]) (simp add: apply_op_def diffusion_mat)
  also have "\<dots> = vec (2 ^ n) (\<lambda>x. complex_of_real (if x = m then 2 * ?u + a else 2 * ?u - b))"
  proof (rule vec_cong)
    fix x :: nat assume x: "x < 2 ^ n"
    have "apply_op (diffusion n) ?c ! x = 2 * (sum_list ?c / of_nat (2 ^ n)) - ?c ! x"
      by (rule diffusion_entry [OF len x])
    also have "\<dots> = 2 * complex_of_real ?u - complex_of_real (if x = m then - a else b)"
      using x unfolding mean by (simp add: two_level_def)
    also have "\<dots> = complex_of_real (if x = m then 2 * ?u + a else 2 * ?u - b)"
      by simp
    finally show "apply_op (diffusion n) ?c ! x =
        complex_of_real (if x = m then 2 * ?u + a else 2 * ?u - b)" .
  qed
  finally have key: "apply_op (diffusion n) ?c =
      vec (2 ^ n) (\<lambda>x. complex_of_real (if x = m then 2 * ?u + a else 2 * ?u - b))" .
  have rhs: "two_level n m (fst (amp_step (2 ^ n) (a, b))) (snd (amp_step (2 ^ n) (a, b))) =
      vec (2 ^ n) (\<lambda>x. complex_of_real (if x = m then 2 * ?u + a else 2 * ?u - b))"
    unfolding two_level_def amp_step_def Let_def fst_conv snd_conv ..
  show ?thesis
    unfolding search_step_def phase_flip_two_level [OF m] key rhs ..
qed

lemma uniform_two_level: "uniform n = two_level n m ((1 / sqrt 2) ^ n) ((1 / sqrt 2) ^ n)"
  by (simp add: uniform_def two_level_def)

lemma search_iterate_two_level:
  assumes m: "m < 2 ^ n"
  shows "(search_step n (make_f n m) ^^ k) (two_level n m a b) =
         two_level n m (fst ((amp_step (2 ^ n) ^^ k) (a, b))) (snd ((amp_step (2 ^ n) ^^ k) (a, b)))"
proof (induction k)
  case 0
  show ?case by simp
next
  case (Suc k)
  show ?case
    by (simp only: funpow.simps o_apply Suc.IH search_step_two_level [OF m] prod.collapse)
qed

lemma amps_closed:
  fixes N :: real
  assumes N: "2 \<le> N"
  defines "t \<equiv> arcsin (1 / sqrt N)"
  shows "(amp_step N ^^ k) (1 / sqrt N, 1 / sqrt N) =
         (sin ((2 * real k + 1) * t), cos ((2 * real k + 1) * t) / sqrt (N - 1))"
proof -
  define w where "w = sqrt (N - 1)"
  define s where "s = 1 / sqrt N"
  have wpos: "0 < w" using N by (simp add: w_def)
  have w2: "w * w = N - 1" using N by (simp add: w_def)
  have Npos: "0 < N" using N by simp
  have s01: "0 < s" "s \<le> 1" using N by (simp_all add: s_def)
  have ss: "s * s = 1 / N" using Npos by (simp add: s_def)
  have t: "t = arcsin s" by (simp only: t_def s_def)
  have sin_t: "sin t = s" unfolding t using s01 by (intro sin_arcsin) linarith+
  have "cos t = sqrt (1 - s\<^sup>2)" unfolding t using s01 by (intro cos_arcsin) linarith+
  also have "1 - s\<^sup>2 = (N - 1) / N" using Npos by (simp add: power2_eq_square ss field_simps)
  also have "sqrt ((N - 1) / N) = w * s" by (simp add: real_sqrt_divide w_def s_def)
  finally have cos_t: "cos t = w * s" .
  have sin2: "sin (2 * t) = 2 * w / N"
    using Npos by (simp add: sin_double sin_t cos_t) (simp add: ss mult.assoc [symmetric] mult.commute)
  have cos2: "cos (2 * t) = 1 - 2 / N"
    using Npos by (simp add: cos_double sin_t cos_t power2_eq_square) (simp add: ss w2 algebra_simps field_simps)
  have step: "amp_step N (sin p, cos p / w) = (sin (p + 2 * t), cos (p + 2 * t) / w)" for p
  proof -
    have e: "(N - 1) * (cos p / w) = w * cos p" unfolding w2 [symmetric] using wpos by simp
    have "sin (p + 2 * t) = sin p * (1 - 2 / N) + cos p * (2 * w / N)"
      by (simp only: sin_add sin2 cos2)
    also have "\<dots> = 2 * ((w * cos p - sin p) / N) + sin p"
      using Npos by (simp add: field_simps)
    finally have a: "2 * ((w * cos p - sin p) / N) + sin p = sin (p + 2 * t)" by simp
    have r1: "w * (2 * ((w * cos p - sin p) / N) - cos p / w) =
        2 * ((w * w * cos p - w * sin p) / N) - cos p"
      using wpos by (simp add: right_diff_distrib)
    have r2: "2 * (((N - 1) * cos p - w * sin p) / N) - cos p =
        cos p * (1 - 2 / N) - sin p * (2 * w / N)"
      using Npos by (simp add: field_simps)
    have "cos (p + 2 * t) = cos p * (1 - 2 / N) - sin p * (2 * w / N)"
      by (simp only: cos_add sin2 cos2)
    also have "\<dots> = w * (2 * ((w * cos p - sin p) / N) - cos p / w)"
      by (simp only: r1 w2 r2)
    finally have "cos (p + 2 * t) / w = 2 * ((w * cos p - sin p) / N) - cos p / w"
      using wpos by simp
    then have b: "2 * ((w * cos p - sin p) / N) - cos p / w = cos (p + 2 * t) / w" by simp
    show ?thesis
      by (simp only: amp_step_def Let_def fst_conv snd_conv e a b)
  qed
  show ?thesis
  proof (induction k)
    case 0
    have "1 / sqrt N = cos t / w" using wpos by (simp add: cos_t s_def)
    then show ?case by (simp add: sin_t s_def w_def)
  next
    case (Suc k)
    have "(2 * real (Suc k) + 1) * t = (2 * real k + 1) * t + 2 * t" by (simp add: algebra_simps)
    then show ?case
      by (simp only: funpow.simps o_apply Suc.IH step w_def [symmetric])
  qed
qed

lemma sin_sq_gt_half:
  fixes p :: real
  assumes "pi / 4 < p" "p < 3 * pi / 4"
  shows "1 / 2 < (sin p)\<^sup>2"
proof -
  have "0 < cos (2 * p - pi)" using assms by (intro cos_gt_zero_pi) simp_all
  moreover have "cos (2 * p - pi + pi) = - cos (2 * p - pi)" by (rule cos_periodic_pi)
  ultimately have "cos (2 * p) < 0" by simp
  then show ?thesis by (simp add: cos_double_sin)
qed

lemma arcsin_half: "arcsin (1 / 2) = pi / 6"
proof -
  have "arcsin (sin (pi / 6)) = pi / 6" by (rule arcsin_sin) simp_all
  then show ?thesis by (simp only: sin_30)
qed

lemma small_angle:
  fixes t :: real
  assumes "0 \<le> t" "t \<le> 53 / 100"
  shows "19 / 20 * t \<le> sin t"
proof -
  have t2: "t\<^sup>2 \<le> (53 / 100)\<^sup>2" using assms by (intro power_mono) simp_all
  have t4: "t\<^sup>2 * t\<^sup>2 \<le> (53 / 100)\<^sup>2 * (53 / 100)\<^sup>2"
    using t2 by (intro mult_mono) simp_all
  have "t\<^sup>2 / 6 + t\<^sup>2 * t\<^sup>2 / 120 \<le> (53 / 100)\<^sup>2 / 6 + (53 / 100)\<^sup>2 * (53 / 100)\<^sup>2 / 120"
    using t2 t4 by (intro add_mono divide_right_mono) simp_all
  also have "\<dots> \<le> 1 / 20" by (simp add: power2_eq_square)
  finally have "t * (t\<^sup>2 / 6 + t\<^sup>2 * t\<^sup>2 / 120) \<le> t * (1 / 20)"
    using assms(1) by (intro mult_left_mono) simp_all
  moreover have "t * (t\<^sup>2 / 6 + t\<^sup>2 * t\<^sup>2 / 120) = t ^ 3 / 6 + t ^ 5 / 120"
    by (simp add: power2_eq_square power3_eq_cube power_numeral_reduce algebra_simps)
  moreover have "t - t ^ 3 / 6 - t ^ 5 / 120 \<le> sin t" using assms(1) by (rule sin_lower5)
  ultimately show ?thesis by linarith
qed

lemma grover_angle_bounds:
  fixes N :: real
  assumes N: "4 \<le> N"
  defines "t \<equiv> arcsin (1 / sqrt N)"
  defines "r \<equiv> nat \<lfloor>pi / 4 * sqrt N\<rfloor>"
  shows "pi / 4 < (2 * real r + 1) * t" and "(2 * real r + 1) * t < 3 * pi / 4"
proof -
  define s where "s = 1 / sqrt N"
  define x where "x = pi / 4 * sqrt N"
  have "sqrt 4 \<le> sqrt N" using N by (simp only: real_sqrt_le_iff)
  then have sq: "2 \<le> sqrt N" by simp
  have Npos: "0 < N" using N by simp
  have s: "0 < s" "s \<le> 1 / 2"
  proof -
    show "0 < s" using Npos by (simp add: s_def)
    have "1 / sqrt N \<le> 1 / 2" using sq Npos by (intro divide_left_mono) simp_all
    then show "s \<le> 1 / 2" by (simp only: s_def)
  qed
  have unit: "sqrt N * s = 1" using Npos by (simp add: s_def)
  have t: "t = arcsin s" by (simp only: t_def s_def)
  have sin_t: "sin t = s" unfolding t using s by (intro sin_arcsin) linarith+
  have "arcsin 0 < arcsin s" using s by (intro arcsin_less_arcsin) linarith+
  then have tpos: "0 < t" by (simp add: t)
  have "arcsin s \<le> arcsin (1 / 2)" using s by (intro arcsin_le_arcsin) linarith+
  then have t6: "t \<le> pi / 6" by (simp only: t arcsin_half)
  then have t53: "t \<le> 53 / 100" using pi_upper by simp
  have lo: "s \<le> t" using sin_x_le_x [of t] tpos sin_t by simp
  have hi: "19 / 20 * t \<le> s" using small_angle [of t] tpos t53 sin_t by simp
  have x2: "2 * x * s = pi / 2" using unit by (simp add: x_def mult.assoc)
  have xpos: "0 \<le> x" using Npos by (simp add: x_def)
  have "real r = real_of_int \<lfloor>x\<rfloor>" using xpos by (simp add: r_def x_def)
  then have r: "real r \<le> x" "x < real r + 1" by linarith+
  have x1: "1 < 2 * x" 
  proof -
    have "pi / 4 * 2 \<le> x" unfolding x_def using sq by (intro mult_left_mono) simp_all
    then show ?thesis using pi_lower by simp
  qed
  have "pi / 4 < pi / 2 - s" using s pi_lower by simp
  also have "\<dots> = (2 * x - 1) * s" using x2 by (simp add: algebra_simps)
  also have "\<dots> \<le> (2 * x - 1) * t" using lo x1 by (intro mult_left_mono) simp_all
  also have "\<dots> < (2 * real r + 1) * t" using r tpos by (intro mult_strict_right_mono) simp_all
  finally show "pi / 4 < (2 * real r + 1) * t" .
  have "(2 * real r + 1) * t \<le> (2 * x + 1) * t" using r tpos by (intro mult_right_mono) simp_all
  also have "\<dots> \<le> (2 * x + 1) * (20 / 19 * s)" using hi xpos by (intro mult_left_mono) simp_all
  also have "\<dots> = 20 / 19 * (pi / 2 + s)" using x2 by (simp add: algebra_simps)
  also have "\<dots> \<le> 20 / 19 * (pi / 2 + 1 / 2)" using s by simp
  also have "\<dots> < 3 * pi / 4" using pi_lower by simp
  finally show "(2 * real r + 1) * t < 3 * pi / 4" .
qed

section \<open>The measurement\<close>

lemma nbits_of_power: "nbits_of (2 ^ k) = k"
proof (induction k)
  case 0
  show ?case by simp
next
  case (Suc k)
  have "1 \<le> (2::nat) ^ k" by simp
  then have "\<not> (2::nat) ^ Suc k \<le> 1" unfolding power_Suc by linarith
  then have "nbits_of (2 ^ Suc k) = Suc (nbits_of (2 ^ Suc k div 2))"
    by (subst nbits_of.simps) (simp only: if_False)
  then show ?case using Suc.IH by simp
qed

lemma maxprob_prefix:
  assumes i0: "i0 < length psi"
    and pos: "0 < prob (psi ! i0)"
    and before: "\<And>j. j < i0 \<Longrightarrow> prob (psi ! j) < prob (psi ! i0)"
    and all: "\<And>j. j < length psi \<Longrightarrow> prob (psi ! j) \<le> prob (psi ! i0)"
    and k: "k \<le> length psi"
  shows "(k \<le> i0 \<longrightarrow> snd (foldl (maxprob_step psi) ([], 0) [0..<k]) < prob (psi ! i0))
       \<and> (i0 < k \<longrightarrow> foldl (maxprob_step psi) ([], 0) [0..<k] =
             (val2bits i0 (nbits_of (length psi)), prob (psi ! i0)))"
  using k
proof (induction k)
  case 0
  show ?case using pos by simp
next
  case (Suc k)
  let ?acc = "foldl (maxprob_step psi) ([], 0) [0..<k]"
  have step: "foldl (maxprob_step psi) ([], 0) [0..<Suc k] = maxprob_step psi ?acc k" by simp
  have klen: "k < length psi" using Suc.prems by simp
  have IH: "(k \<le> i0 \<longrightarrow> snd ?acc < prob (psi ! i0))
       \<and> (i0 < k \<longrightarrow> ?acc = (val2bits i0 (nbits_of (length psi)), prob (psi ! i0)))"
    using Suc.IH klen by simp
  consider "k < i0" | "k = i0" | "i0 < k" by linarith
  then show ?case
  proof cases
    case 1
    then have "snd ?acc < prob (psi ! i0)" using IH by simp
    moreover have "prob (psi ! k) < prob (psi ! i0)" using before [OF 1] .
    ultimately have "snd (maxprob_step psi ?acc k) < prob (psi ! i0)"
      by (simp add: maxprob_step_def)
    then show ?thesis using 1 unfolding step by simp
  next
    case 2
    then have "snd ?acc < prob (psi ! k)" using IH by simp
    then have "maxprob_step psi ?acc k = (val2bits k (nbits_of (length psi)), prob (psi ! k))"
      by (simp add: maxprob_step_def)
    then show ?thesis using 2 unfolding step by simp
  next
    case 3
    then have acc: "?acc = (val2bits i0 (nbits_of (length psi)), prob (psi ! i0))" using IH by simp
    have "\<not> prob (psi ! i0) < prob (psi ! k)" using all [OF klen] by simp
    then have "maxprob_step psi ?acc k = ?acc" by (simp add: maxprob_step_def acc)
    then show ?thesis using 3 acc unfolding step by simp
  qed
qed

lemma maxprob_first_max:
  assumes "i0 < length psi" "0 < prob (psi ! i0)"
    and "\<And>j. j < i0 \<Longrightarrow> prob (psi ! j) < prob (psi ! i0)"
    and "\<And>j. j < length psi \<Longrightarrow> prob (psi ! j) \<le> prob (psi ! i0)"
  shows "maxprob psi = (val2bits i0 (nbits_of (length psi)), prob (psi ! i0))"
  using maxprob_prefix [OF assms le_refl] assms(1) by (simp add: maxprob_def)

lemma prob_entry: "prob (complex_of_real x * minus_amp y) = x * x / 2"
proof -
  have "(1 / sqrt 2) * (1 / sqrt 2) = (1 / 2 :: real)" by (simp add: field_simps)
  then have "x * (1 / sqrt 2) * (x * (1 / sqrt 2)) = x * x / 2" by (simp add: algebra_simps)
  then show ?thesis by (auto simp: prob_def minus_amp_def)
qed

lemma product_entry:
  assumes "i < 2 ^ Suc n"
  shows "kron_state (two_level n m a b) (vec 2 minus_amp) ! i =
         complex_of_real (if i div 2 = m then a else b) * minus_amp (i mod 2)"
proof -
  have "i < 2 ^ n * 2" using assms by (simp add: mult.commute)
  then show ?thesis
    unfolding two_level_def kron_state_vec using assms by simp
qed

lemma product_prob:
  assumes "i < 2 ^ Suc n"
  shows "prob (kron_state (two_level n m a b) (vec 2 minus_amp) ! i) =
         (if i div 2 = m then a * a / 2 else b * b / 2)"
  by (simp add: product_entry [OF assms] prob_entry)

lemma maxprob_marked:
  assumes m: "m < 2 ^ n" and ab: "b * b < a * a"
  shows "maxprob (kron_state (two_level n m a b) (vec 2 minus_amp)) =
         (val2bits (2 * m) (Suc n), a * a / 2)"
proof -
  let ?psi = "kron_state (two_level n m a b) (vec 2 minus_amp)"
  have len: "length ?psi = 2 ^ Suc n" by (simp add: two_level_def)
  have i0: "2 * m < 2 ^ Suc n" using m by simp
  have p0: "prob (?psi ! (2 * m)) = a * a / 2" by (simp add: product_prob [OF i0])
  have apos: "0 < a * a" using ab by (metis le_less_trans zero_le_square)
  have "maxprob ?psi = (val2bits (2 * m) (nbits_of (length ?psi)), prob (?psi ! (2 * m)))"
  proof (rule maxprob_first_max)
    show "2 * m < length ?psi" using i0 by (simp only: len)
    show "0 < prob (?psi ! (2 * m))" using apos by (simp add: p0)
    show "prob (?psi ! j) < prob (?psi ! (2 * m))" if "j < 2 * m" for j
    proof -
      have "j < 2 ^ Suc n" using that i0 by simp
      moreover have "j div 2 \<noteq> m" using that by auto
      ultimately show ?thesis using ab by (simp add: product_prob p0)
    qed
    show "prob (?psi ! j) \<le> prob (?psi ! (2 * m))" if "j < length ?psi" for j
    proof -
      have "j < 2 ^ Suc n" using that by (simp only: len)
      then show ?thesis using ab by (simp add: product_prob p0)
    qed
  qed
  then show ?thesis by (simp only: len nbits_of_power p0)
qed

lemma maxprob_tie:
  assumes ab: "b * b = a * a" and apos: "0 < a * a"
  shows "maxprob (kron_state (two_level n m a b) (vec 2 minus_amp)) =
         (val2bits 0 (Suc n), a * a / 2)"
proof -
  let ?psi = "kron_state (two_level n m a b) (vec 2 minus_amp)"
  have len: "length ?psi = 2 ^ Suc n" by (simp add: two_level_def)
  have all: "prob (?psi ! j) = a * a / 2" if "j < 2 ^ Suc n" for j
    using ab by (simp add: product_prob [OF that])
  have z: "(0::nat) < 2 ^ Suc n" by simp
  have p0: "prob (?psi ! 0) = a * a / 2" by (rule all [OF z])
  have "maxprob ?psi = (val2bits 0 (nbits_of (length ?psi)), prob (?psi ! 0))"
  proof (rule maxprob_first_max)
    show "0 < length ?psi" using z by (simp only: len)
    show "0 < prob (?psi ! 0)" using apos by (simp only: p0 zero_less_divide_iff) simp
    show "prob (?psi ! j) < prob (?psi ! 0)" if "j < 0" for j using that by simp
    show "prob (?psi ! j) \<le> prob (?psi ! 0)" if "j < length ?psi" for j
    proof -
      have "j < 2 ^ Suc n" using that by (simp only: len)
      then show ?thesis by (simp only: all p0)
    qed
  qed
  then show ?thesis by (simp only: len nbits_of_power p0)
qed

section \<open>The full pipeline\<close>

lemma OracleUf_marked: "m < 2 ^ n \<Longrightarrow> OracleUf (n + 1) (make_f n m) = Inr (marked_oracle n m)"
  using OracleUf_mat [OF boolean_on_make_f, of m n] by (simp add: marked_oracle_def)

lemma final_state_marked:
  assumes m: "m < 2 ^ n"
  shows "final_state n (marked_oracle n m) =
         kron_state (two_level n m (fst (final_amps n)) (snd (final_amps n))) (vec 2 minus_amp)"
proof -
  have "final_state n (marked_oracle n m) =
        amplify (grover n (marked_oracle n m)) (nat (iterations n))
          (kron_state (uniform n) (vec 2 minus_amp))"
    by (simp only: final_state_def initial_state_product minus_state)
  also have "\<dots> = kron_state ((search_step n (make_f n m) ^^ nat (iterations n)) (uniform n))
          (vec 2 minus_amp)"
    unfolding marked_oracle_def
    by (rule amplify_product [OF boolean_on_make_f [OF m] length_uniform])
  also have "(search_step n (make_f n m) ^^ nat (iterations n)) (uniform n) =
        two_level n m (fst (final_amps n)) (snd (final_amps n))"
    by (simp only: uniform_two_level [of n m] search_iterate_two_level [OF m] final_amps_def)
  finally show ?thesis .
qed

lemma run_experiment_outcome:
  assumes m: "m < 2 ^ n"
  shows "run_experiment n m = outcome_selector (final_state n (marked_oracle n m)) (make_f n m)"
  by (simp only: run_experiment_def experiment_body_def OracleUf_marked [OF m] sum.case)

lemma measurement_marked:
  assumes m: "m < 2 ^ n"
  shows "measurement n (make_f n m) = Inr (maxprob (final_state n (marked_oracle n m)))"
  by (simp only: measurement_def OracleUf_marked [OF m] sum.case)

lemma half_power_sqrt: "(1 / sqrt 2) ^ n = 1 / sqrt (2 ^ n)"
  by (simp add: power_one_over real_sqrt_power)

lemma final_amps_closed:
  assumes n: "1 \<le> n"
  defines "p \<equiv> (2 * real (nat \<lfloor>pi / 4 * sqrt (2 ^ n)\<rfloor>) + 1) * arcsin (1 / sqrt (2 ^ n))"
  shows "final_amps n = (sin p, cos p / sqrt (2 ^ n - 1))"
proof -
  have "(2::real) ^ 1 \<le> 2 ^ n" using n by (intro power_increasing) simp_all
  then have N: "(2::real) \<le> 2 ^ n" by simp
  show ?thesis
    unfolding final_amps_def half_power_sqrt iterations_floor p_def
    by (rule amps_closed [OF N])
qed

lemma final_amps_bounds:
  assumes n: "2 \<le> n"
  shows "1 / 2 < fst (final_amps n) * fst (final_amps n)"
    and "snd (final_amps n) * snd (final_amps n) < 1 / 2"
proof -
  define p where "p = (2 * real (nat \<lfloor>pi / 4 * sqrt (2 ^ n)\<rfloor>) + 1) * arcsin (1 / sqrt (2 ^ n))"
  have "(2::real) ^ 2 \<le> 2 ^ n" using n by (intro power_increasing) simp_all
  then have N: "(4::real) \<le> 2 ^ n" by simp
  have amps: "final_amps n = (sin p, cos p / sqrt (2 ^ n - 1))"
    unfolding p_def using n by (intro final_amps_closed) simp
  have "pi / 4 < p" "p < 3 * pi / 4"
    unfolding p_def by (rule grover_angle_bounds [OF N])+
  then have s: "1 / 2 < (sin p)\<^sup>2" by (rule sin_sq_gt_half)
  then show "1 / 2 < fst (final_amps n) * fst (final_amps n)"
    by (simp add: amps power2_eq_square)
  have c: "(cos p)\<^sup>2 < 1 / 2" using s by (simp add: cos_squared_eq)
  have w: "1 \<le> (2::real) ^ n - 1" using N by simp
  have "(cos p / sqrt (2 ^ n - 1))\<^sup>2 = (cos p)\<^sup>2 / (2 ^ n - 1)"
    using w by (simp add: power_divide)
  also have "\<dots> \<le> (cos p)\<^sup>2 / 1" using w by (intro divide_left_mono) simp_all
  finally have "(cos p / sqrt (2 ^ n - 1))\<^sup>2 < 1 / 2" using c by simp
  then show "snd (final_amps n) * snd (final_amps n) < 1 / 2"
    by (simp add: amps power2_eq_square)
qed

text \<open>
  C1, amended. For every \<open>n \<ge> 2\<close> and every predicate \<open>make_f n m\<close> that is 1 on exactly the
  input \<open>m\<close> of the \<open>2 ^ n\<close> inputs, the pipeline with the iteration count of line 102 selects
  the basis state \<open>|m>|0>\<close>; without the ancilla bit it is the marked string, on which the
  predicate is 1, and the run ends without the assertion error. The selected basis state
  has a probability above 1/4: the two ancilla values share the probability of the marked
  string, which is above 1/2.
\<close>

theorem grover_finds_marked:
  assumes "2 \<le> n" and "m < 2 ^ n"
  shows "\<exists>u. OracleUf (n + 1) (make_f n m) = Inr u
     \<and> fst (maxprob (final_state n u)) = val2bits (2 * m) (n + 1)
     \<and> butlast (fst (maxprob (final_state n u))) = val2bits m n
     \<and> make_f n m (val2bits m n) = 1
     \<and> 1 / 4 < snd (maxprob (final_state n u))
     \<and> 1 / 2 < prob (final_state n u ! (2 * m)) + prob (final_state n u ! (2 * m + 1))
     \<and> run_experiment n m = Inr ()"
proof -
  let ?a = "fst (final_amps n)" and ?b = "snd (final_amps n)"
  let ?psi = "final_state n (marked_oracle n m)"
  have m: "m < 2 ^ n" by (rule assms(2))
  have a: "1 / 2 < ?a * ?a" and b: "?b * ?b < 1 / 2" by (rule final_amps_bounds [OF assms(1)])+
  have psi: "?psi = kron_state (two_level n m ?a ?b) (vec 2 minus_amp)"
    by (rule final_state_marked [OF m])
  have mp: "maxprob ?psi = (val2bits (2 * m) (Suc n), ?a * ?a / 2)"
    unfolding psi using a b by (intro maxprob_marked [OF m]) linarith
  have strip: "butlast (val2bits (2 * m) (Suc n)) = val2bits m n"
    by (simp add: butlast_val2bits)
  have f: "make_f n m (val2bits m n) = 1" by (simp add: make_f_val2bits [OF m m])
  have i0: "2 * m < 2 ^ Suc n" and i1: "2 * m + 1 < 2 ^ Suc n" using m by simp_all
  have d1: "(2 * m + 1) div 2 = m" by simp
  have "prob (?psi ! (2 * m)) = ?a * ?a / 2"
    unfolding psi by (simp add: product_prob [OF i0])
  moreover have "prob (?psi ! (2 * m + 1)) = ?a * ?a / 2"
    unfolding psi by (simp only: product_prob [OF i1] d1 refl if_True)
  ultimately have total: "1 / 2 < prob (?psi ! (2 * m)) + prob (?psi ! (2 * m + 1))"
    using a by simp
  have run: "run_experiment n m = Inr ()"
    by (simp add: run_experiment_outcome [OF m] outcome_selector_def mp strip f)
  have "OracleUf (n + 1) (make_f n m) = Inr (marked_oracle n m)" by (rule OracleUf_marked [OF m])
  moreover have "fst (maxprob ?psi) = val2bits (2 * m) (n + 1)" by (simp add: mp)
  moreover have "butlast (fst (maxprob ?psi)) = val2bits m n" by (simp add: mp strip)
  moreover have "1 / 4 < snd (maxprob ?psi)" using a by (simp add: mp)
  ultimately show ?thesis using f total run by blast
qed

theorem grover_finds_marked_witness:
  "\<exists>u. OracleUf (2 + 1) (make_f 2 1) = Inr u
     \<and> fst (maxprob (final_state 2 u)) = val2bits (2 * 1) (2 + 1)
     \<and> butlast (fst (maxprob (final_state 2 u))) = val2bits 1 2
     \<and> make_f 2 1 (val2bits 1 2) = 1
     \<and> 1 / 4 < snd (maxprob (final_state 2 u))
     \<and> 1 / 2 < prob (final_state 2 u ! (2 * 1)) + prob (final_state 2 u ! (2 * 1 + 1))
     \<and> run_experiment 2 1 = Inr ()"
  by (rule grover_finds_marked) simp_all

lemma iterations_at_1: "iterations 1 = 1"
proof -
  have "\<lfloor>pi / 4 * sqrt (2 ^ 1)\<rfloor> = int 1"
    by (rule floor_pi_sqrt) (simp_all add: power2_eq_square)
  then show ?thesis by (simp add: iterations_floor)
qed

lemma final_amps_one: "final_amps 1 = (1 / sqrt 2, - (1 / sqrt 2))"
proof -
  have "nat (iterations 1) = Suc 0" unfolding iterations_at_1 by simp
  then show ?thesis unfolding final_amps_def by (simp add: amp_step_def)
qed

text \<open>
  C1, as stated, fails for \<open>n = 1\<close>: with the marked input 1, after the one scheduled
  iteration all four basis states have the probability 1/4; the first of them, \<open>|0>|0>\<close>,
  is selected, the predicate is 0 on its search bit, and the run ends in the assertion
  error. The probability of the winner, 1/4, does not exceed 1/2.
\<close>

theorem grover_one_line_fails:
  "run_experiment 1 1 = Inl AssertionError \<and> measurement 1 (make_f 1 1) = Inr ([0, 0], 1 / 4)"
proof -
  let ?psi = "final_state 1 (marked_oracle 1 1)"
  have m: "(1::nat) < 2 ^ 1" by simp
  have psi: "?psi = kron_state (two_level 1 1 (1 / sqrt 2) (- (1 / sqrt 2))) (vec 2 minus_amp)"
    using final_state_marked [OF m] by (simp only: final_amps_one fst_conv snd_conv)
  have "maxprob ?psi = (val2bits 0 (Suc 1), (1 / sqrt 2) * (1 / sqrt 2) / 2)"
    unfolding psi by (rule maxprob_tie) simp_all
  then have mp: "maxprob ?psi = ([0, 0], 1 / 4)"
    by (simp add: val2bits_def upt_rec)
  have f: "make_f 1 1 (butlast [0, 0]) = 0" by (simp add: make_f_def bits2val_def)
  have "outcome_selector ?psi (make_f 1 1) = Inl AssertionError"
    unfolding outcome_selector_def mp Let_def prod.case f by simp
  then have "run_experiment 1 1 = Inl AssertionError"
    by (simp only: run_experiment_outcome [OF m])
  moreover have "measurement 1 (make_f 1 1) = Inr ([0, 0], 1 / 4)"
    by (simp only: measurement_marked [OF m] mp)
  ultimately show ?thesis by simp
qed

section \<open>The predicate's table is read in range\<close>

lemma bits2val_snoc: "bits2val (bits @ [b]) = 2 * bits2val bits + b"
  by (simp add: bits2val_def)

lemma bits2val_less: "list_all (\<lambda>b. b < 2) bits \<Longrightarrow> bits2val bits < 2 ^ length bits"
proof (induction bits rule: rev_induct)
  case Nil
  show ?case by (simp add: bits2val_def)
next
  case (snoc b bits)
  then have "bits2val bits < 2 ^ length bits" and "b < 2" by simp_all
  then have "2 * bits2val bits + b < 2 * 2 ^ length bits" by linarith
  then show ?case by (simp add: bits2val_snoc)
qed

section \<open>The Grover iterate\<close>

lemma OracleUf_Inr:
  assumes "OracleUf (n + 1) f = Inr u"
  shows "boolean_on n f"
    and "u = mat (2 ^ Suc n) (\<lambda>r c. if r = oracle_perm n f c then 1 else 0)"
proof -
  show b: "boolean_on n f"
  proof (rule ccontr)
    assume "\<not> boolean_on n f"
    then have "OracleUf (Suc n) f = Inl ConstructionError" by (rule OracleUf_error)
    then show False using assms by simp
  qed
  show "u = mat (2 ^ Suc n) (\<lambda>r c. if r = oracle_perm n f c then 1 else 0)"
    using OracleUf_mat [OF b] assms by simp
qed

lemma compose_perm_entry:
  fixes d q :: nat and g :: "nat \<Rightarrow> nat \<Rightarrow> complex"
  assumes "q < d"
  shows "(\<Sum>k<d. g i k * (if k = q then 1 else 0)) = g i q"
proof -
  have "(\<Sum>k<d. g i k * (if k = q then 1 else 0)) = (\<Sum>k<d. if k = q then g i q else 0)"
    by (rule sum.cong) auto
  also have "\<dots> = g i q" using assms by simp
  finally show ?thesis .
qed

lemma grover_entry:
  assumes b: "boolean_on n f" and i: "i < 2 ^ Suc n" and j: "j < 2 ^ Suc n"
  shows "grover n (mat (2 ^ Suc n) (\<lambda>r c. if r = oracle_perm n f c then 1 else 0)) ! i ! j =
         inversion n ! i ! oracle_perm n f j"
proof -
  let ?g = "\<lambda>i j. (2 / 2 ^ n - delta (i div 2) (j div 2)) * delta (i mod 2) (j mod 2)"
  have pj: "oracle_perm n f j < 2 ^ Suc n" using j by (rule oracle_perm_less)
  have "grover n (mat (2 ^ Suc n) (\<lambda>r c. if r = oracle_perm n f c then 1 else 0)) ! i ! j =
        (\<Sum>k<2 ^ Suc n. ?g i k * (if k = oracle_perm n f j then 1 else 0))"
    unfolding grover_def inversion_mat compose_mat using i j by (simp only: nth_mat)
  also have "\<dots> = ?g i (oracle_perm n f j)"
    by (rule compose_perm_entry [OF pj])
  also have "\<dots> = inversion n ! i ! oracle_perm n f j"
    unfolding inversion_mat using i pj by (simp only: nth_mat)
  finally show ?thesis .
qed

text \<open>
  C4. The Grover iterate of line 85 is \<open>(D tensor I) . Oracle\<close>, with the call \<open>inversion(u)\<close>
  read as the specification's Compose: the diffusion operator over the search lines is
  padded with the one-line identity on the ancilla, and the oracle acts on the state first,
  the padded diffusion second. In the matrix the oracle permutes the columns of the padded
  diffusion; on a state the composite is the oracle followed by the padded diffusion; the
  padded diffusion leaves the ancilla factor of a product state alone; and on a product
  with the ancilla in \<open>H|1>\<close> the composite first flips the signs of the marked amplitudes
  and then inverts about the mean.
\<close>

theorem grover_is_diffusion_after_oracle:
  assumes "OracleUf (nbits + 1) f = Inr u"
    and "length psi = 2 ^ (nbits + 1)" and "length phi = 2 ^ nbits" and "length v = 2"
    and "i < 2 ^ (nbits + 1)" and "j < 2 ^ (nbits + 1)"
  shows "grover nbits u = compose (kron (diffusion nbits) (Identity 1)) u
     \<and> grover nbits u ! i ! j = kron (diffusion nbits) (Identity 1) ! i ! oracle_perm nbits f j
     \<and> apply_op (grover nbits u) psi =
         apply_op (kron (diffusion nbits) (Identity 1)) (apply_op u psi)
     \<and> apply_op (kron (diffusion nbits) (Identity 1)) (kron_state phi v) =
         kron_state (apply_op (diffusion nbits) phi) v
     \<and> apply_op (grover nbits u) (kron_state phi (apply_op (Hadamard 1) (ones 1))) =
         kron_state (apply_op (diffusion nbits) (phase_flip nbits f phi))
           (apply_op (Hadamard 1) (ones 1))"
proof (intro conjI)
  have b: "boolean_on nbits f" by (rule OracleUf_Inr(1) [OF assms(1)])
  have u: "u = mat (2 ^ Suc nbits) (\<lambda>r c. if r = oracle_perm nbits f c then 1 else 0)"
    by (rule OracleUf_Inr(2) [OF assms(1)])
  have i: "i < 2 ^ Suc nbits" and j: "j < 2 ^ Suc nbits" and psi: "length psi = 2 ^ Suc nbits"
    using assms(2,5,6) by simp_all
  show "grover nbits u = compose (kron (diffusion nbits) (Identity 1)) u"
    by (simp add: grover_def inversion_def)
  show "grover nbits u ! i ! j = kron (diffusion nbits) (Identity 1) ! i ! oracle_perm nbits f j"
    unfolding u using grover_entry [OF b i j] by (simp only: inversion_def)
  have "square (2 ^ Suc nbits) (inversion nbits)" by (simp only: inversion_mat square_mat)
  moreover have "square (2 ^ Suc nbits) u" unfolding u by (rule square_mat)
  ultimately have "apply_op (compose (inversion nbits) u) psi =
      apply_op (inversion nbits) (apply_op u psi)"
    using psi by (rule apply_compose_sq)
  then show "apply_op (grover nbits u) psi =
         apply_op (kron (diffusion nbits) (Identity 1)) (apply_op u psi)"
    by (simp only: grover_def inversion_def)
  show "apply_op (kron (diffusion nbits) (Identity 1)) (kron_state phi v) =
         kron_state (apply_op (diffusion nbits) phi) v"
    using apply_inversion_kron [OF assms(3,4)] by (simp only: inversion_def)
  show "apply_op (grover nbits u) (kron_state phi (apply_op (Hadamard 1) (ones 1))) =
         kron_state (apply_op (diffusion nbits) (phase_flip nbits f phi))
           (apply_op (Hadamard 1) (ones 1))"
    unfolding u minus_state using grover_step [OF b assms(3)] by (simp only: search_step_def)
qed

lemma apply_mat_ket:
  assumes "c < d"
  shows "apply_op (mat d g) (vec d (\<lambda>i. if i = c then 1 else 0)) = vec d (\<lambda>i. g i c)"
  unfolding apply_mat_vec
proof (rule vec_cong)
  fix i
  have "(\<Sum>k<d. g i k * (if k = c then 1 else 0)) = (\<Sum>k<d. if k = c then g i c else 0)"
    by (rule sum.cong) auto
  also have "\<dots> = g i c" using assms by simp
  finally show "(\<Sum>k<d. g i k * (if k = c then 1 else 0)) = g i c" .
qed

lemma less_four: "i < (4::nat) \<Longrightarrow> i = 0 \<or> i = 1 \<or> i = 2 \<or> i = 3"
  by linarith

lemma inversion_one_ket: "apply_op (inversion 1) (ket 2 0) = ket 2 2"
proof -
  have "apply_op (inversion 1) (ket 2 0) =
        vec 4 (\<lambda>i. (2 / 2 ^ 1 - delta (i div 2) (0 div 2)) * delta (i mod 2) (0 mod 2))"
    unfolding inversion_mat ket_def using apply_mat_ket [of 0 4] by simp
  also have "\<dots> = vec 4 (\<lambda>i. if i = 2 then 1 else 0)"
    by (rule vec_cong) (auto simp: delta_def dest!: less_four)
  finally show ?thesis by (simp add: ket_def)
qed

lemma marked_oracle_ket:
  assumes "m < 2 ^ n" "c < 2 ^ Suc n"
  shows "apply_op (marked_oracle n m) (ket (Suc n) c) = ket (Suc n) (oracle_perm n (make_f n m) c)"
  unfolding marked_oracle_def ket_def by (rule apply_perm_ket [OF assms(2)])

lemma oracle_perm_one:
  "oracle_perm 1 (make_f 1 1) 0 = 0" "oracle_perm 1 (make_f 1 1) 2 = 3"
  by (simp_all add: oracle_perm_def make_f_def val2bits_def bits2val_def)

theorem grover_is_diffusion_after_oracle_witness:
  "apply_op (grover 1 (marked_oracle 1 1)) (ket 2 0) = ket 2 2
   \<and> apply_op (compose (marked_oracle 1 1) (inversion 1)) (ket 2 0) = ket 2 3
   \<and> ket 2 2 \<noteq> ket 2 3"
proof (intro conjI)
  have m: "(1::nat) < 2 ^ 1" by simp
  have o: "OracleUf (1 + 1) (make_f 1 1) = Inr (marked_oracle 1 1)" by (rule OracleUf_marked [OF m])
  have l2: "length (ket 2 0) = 2 ^ (1 + 1)" and l1: "length (ket 1 0) = 2 ^ 1"
    and lv: "length (ket 1 1) = 2" and z: "(0::nat) < 2 ^ (1 + 1)"
    by (simp_all add: ket_def)
  have "apply_op (marked_oracle 1 1) (ket (Suc 1) 0) = ket (Suc 1) (oracle_perm 1 (make_f 1 1) 0)"
    by (rule marked_oracle_ket) simp_all
  then have u0: "apply_op (marked_oracle 1 1) (ket 2 0) = ket 2 0"
    by (simp only: oracle_perm_one Suc_1)
  have "apply_op (marked_oracle 1 1) (ket (Suc 1) 2) = ket (Suc 1) (oracle_perm 1 (make_f 1 1) 2)"
    by (rule marked_oracle_ket) simp_all
  then have u2: "apply_op (marked_oracle 1 1) (ket 2 2) = ket 2 3"
    by (simp only: oracle_perm_one Suc_1)
  have "apply_op (grover 1 (marked_oracle 1 1)) (ket 2 0) =
        apply_op (kron (diffusion 1) (Identity 1)) (apply_op (marked_oracle 1 1) (ket 2 0))"
    by (rule grover_is_diffusion_after_oracle
        [OF o l2 l1 lv z z, THEN conjunct2, THEN conjunct2, THEN conjunct1])
  then show "apply_op (grover 1 (marked_oracle 1 1)) (ket 2 0) = ket 2 2"
    by (simp only: u0 inversion_def [symmetric] inversion_one_ket)
  have "square (2 ^ Suc 1) (marked_oracle 1 1)" unfolding marked_oracle_def by (rule square_mat)
  moreover have "square (2 ^ Suc 1) (inversion 1)" by (simp only: inversion_mat square_mat)
  moreover have "length (ket 2 0) = 2 ^ Suc 1" by (simp add: ket_def)
  ultimately have "apply_op (compose (marked_oracle 1 1) (inversion 1)) (ket 2 0) =
        apply_op (marked_oracle 1 1) (apply_op (inversion 1) (ket 2 0))"
    by (rule apply_compose_sq)
  then show "apply_op (compose (marked_oracle 1 1) (inversion 1)) (ket 2 0) = ket 2 3"
    by (simp only: inversion_one_ket u2)
  have "ket 2 2 ! 2 \<noteq> ket 2 3 ! 2" by (simp add: ket_def)
  then show "ket 2 2 \<noteq> ket 2 3" by metis
qed

end
